theory Spec2Isabelle
  imports Main "HOL-Library.Sublist"
begin

section \<open>Generic values\<close>

text \<open>
  The YAML decoder hands every document to the program as an \<^verbatim>\<open>interface{}\<close>:
  the untyped \<^verbatim>\<open>nil\<close>, a scalar (string, int, bool or float64), a
  \<^verbatim>\<open>[]interface{}\<close> or a \<^verbatim>\<open>map[interface{}]interface{}\<close>.
  No operation of the program computes with a float64; what matters of a float is how Go
  compares it as a map key and how \<^verbatim>\<open>%v\<close> prints it. A float64 is therefore one of:
  a NaN, a zero with its sign bit, or any other number, carried by its default rendering
  (which determines the number).
  A map key is a scalar or \<^verbatim>\<open>nil\<close>.

  A Go map is written as an association list. The order of the list stands for the order
  in which the runtime enumerates the map (which Go leaves open). Go finds a key in a map
  with \<^verbatim>\<open>==\<close> on the interface values: a NaN equals no key, not even itself,
  and the two zeros are equal. A list that describes a Go map has no two keys that are
  equal in this sense (\<open>distinct_keys\<close>); it can hold several NaN keys.
\<close>

datatype float64 = FNaN | FZero bool | FNum string

datatype scalar = SString string | SInt int | SBool bool | SFloat float64

datatype key = KNil | Key scalar

datatype gv = GNil | GScalar scalar | GSeq "gv list" | GMap "(key \<times> gv) list"

datatype error =
    MergeConflict gv gv
  | UnmarshalError string
  | InFile string string
  | UndefinedVariable string

text \<open>The comparison \<^verbatim>\<open>==\<close> of Go on float64 values, on scalars of the same
  dynamic type, and on keys.\<close>

fun float_eq :: "float64 \<Rightarrow> float64 \<Rightarrow> bool" where
  "float_eq FNaN b = False"
| "float_eq a FNaN = False"
| "float_eq (FZero s) (FZero s') = True"
| "float_eq a b = (a = b)"

fun scalar_eq :: "scalar \<Rightarrow> scalar \<Rightarrow> bool" where
  "scalar_eq (SFloat a) (SFloat b) = float_eq a b"
| "scalar_eq a b = (a = b)"

fun key_eq :: "key \<Rightarrow> key \<Rightarrow> bool" where
  "key_eq KNil KNil = True"
| "key_eq (Key a) (Key b) = scalar_eq a b"
| "key_eq a b = False"

text \<open>Reading \<^verbatim>\<open>m[k]\<close> gives the zero value \<^verbatim>\<open>nil\<close> for a missing key;
  writing \<^verbatim>\<open>m[k] = v\<close> replaces the entry of a key equal to \<open>k\<close> (the key too: the
  key of an interface type is stored again) or adds an entry. \<open>map_lookup\<close> is the
  two-valued read \<^verbatim>\<open>v, ok := m[k]\<close>, which tells a missing key from a \<^verbatim>\<open>nil\<close>
  value.\<close>

fun map_index :: "(key \<times> gv) list \<Rightarrow> key \<Rightarrow> gv" where
  "map_index [] k = GNil"
| "map_index ((k', v) # m) k = (if key_eq k' k then v else map_index m k)"

fun map_assign :: "(key \<times> gv) list \<Rightarrow> key \<Rightarrow> gv \<Rightarrow> (key \<times> gv) list" where
  "map_assign [] k v = [(k, v)]"
| "map_assign ((k', v') # m) k v =
     (if key_eq k' k then (k, v) # m else (k', v') # map_assign m k v)"

fun map_lookup :: "(key \<times> gv) list \<Rightarrow> key \<Rightarrow> gv option" where
  "map_lookup [] k = None"
| "map_lookup ((k', v) # m) k = (if key_eq k' k then Some v else map_lookup m k)"

fun distinct_keys :: "(key \<times> gv) list \<Rightarrow> bool" where
  "distinct_keys [] = True"
| "distinct_keys ((k, v) # m) = ((\<forall>e \<in> set m. \<not> key_eq k (fst e)) \<and> distinct_keys m)"

text \<open>The entries of a map whose key equals no key (the NaN keys): no read finds them,
  an enumeration does.\<close>

definition NaN_entries :: "(key \<times> gv) list \<Rightarrow> (key \<times> gv) list" where
  "NaN_entries m = filter (\<lambda>e. \<not> key_eq (fst e) (fst e)) m"

section \<open>The merge engine\<close>

text \<open>
  \<^verbatim>\<open>mergeMaps(dst, src)\<close> with its \<^verbatim>\<open>for k, v := range s\<close> loop as
  \<open>mergeEntries\<close>, which carries \<^verbatim>\<open>dstMap\<close> through the entries of the source map.
  The source updates \<^verbatim>\<open>dstMap\<close> in place and returns it; the model returns the
  updated map. \<open>Inl\<close> is the returned error.
\<close>

function mergeMaps :: "gv \<Rightarrow> gv \<Rightarrow> error + gv"
  and mergeEntries :: "(key \<times> gv) list \<Rightarrow> (key \<times> gv) list \<Rightarrow> error + (key \<times> gv) list"
where
  "mergeMaps dst src =
     (if dst = GNil then Inr src
      else if src = GNil then Inr dst
      else (case src of
              GMap s \<Rightarrow>
                (case dst of
                   GMap dstMap \<Rightarrow>
                     (case mergeEntries dstMap s of
                        Inl err \<Rightarrow> Inl err
                      | Inr dstMap' \<Rightarrow> Inr (GMap dstMap'))
                 | _ \<Rightarrow> Inl (MergeConflict dst src))
            | _ \<Rightarrow> Inr src))"
| "mergeEntries dstMap [] = Inr dstMap"
| "mergeEntries dstMap ((k, v) # s) =
     (let oldVal = map_index dstMap k in
      if oldVal = GNil then mergeEntries (map_assign dstMap k v) s
      else (case mergeMaps oldVal v of
              Inl err \<Rightarrow> Inl err
            | Inr tmp \<Rightarrow> mergeEntries (map_assign dstMap k tmp) s))"
  by pat_completeness auto
termination
  by (relation "measure (\<lambda>x. case x of
                    Inl (dst, src) \<Rightarrow> size src
                  | Inr (dstMap, s) \<Rightarrow> size_list (size_prod (\<lambda>_. 0) size) s)")
     auto


text \<open>
  \<^verbatim>\<open>newYAMLProviderCore(files ...io.Reader)\<close>. Reading and decoding a reader is the
  work of the YAML library: a reader is given by what \<^verbatim>\<open>unmarshalYAMLValue\<close>
  makes of it (an error text or the decoded value) and by its file name when it is an
  \<^verbatim>\<open>*os.File\<close>. The key of the root node, \<^verbatim>\<open>Root\<close>, is a constant of the
  package declared outside this file and is a parameter here.
\<close>

datatype nodeType = valueNode | objectNode | arrayNode

record yamlNode =
  nodeType :: nodeType
  key :: string
  val :: gv
  children :: "nat option"

text \<open>The provider is a struct of one field, its root node.\<close>

type_synonym yamlConfigProvider = yamlNode

record reader =
  file_name :: "string option"
  unmarshalYAMLValue :: "string + gv"

fun getNodeType :: "gv \<Rightarrow> nodeType" where
  "getNodeType (GMap m) = objectNode"
| "getNodeType (GSeq xs) = arrayNode"
| "getNodeType v = valueNode"

fun merge_files :: "gv \<Rightarrow> reader list \<Rightarrow> error + gv" where
  "merge_files root [] = Inr root"
| "merge_files root (v # files) =
     (case unmarshalYAMLValue v of
        Inl err \<Rightarrow>
          (case file_name v of
             Some name \<Rightarrow> Inl (InFile err name)
           | None \<Rightarrow> Inl (UnmarshalError err))
      | Inr cur \<Rightarrow>
          (case mergeMaps root cur of
             Inl err \<Rightarrow> Inl err
           | Inr tmp \<Rightarrow> merge_files tmp files))"

definition newYAMLProviderCore :: "string \<Rightarrow> reader list \<Rightarrow> error + yamlConfigProvider" where
  "newYAMLProviderCore Root files =
     (case merge_files GNil files of
        Inl err \<Rightarrow> Inl err
      | Inr r \<Rightarrow>
          Inr \<lparr>nodeType = getNodeType r, key = Root, val = r, children = None\<rparr>)"

section \<open>Strings\<close>

text \<open>
  A Go string is its bytes. \<^verbatim>\<open>strings.Index\<close> and \<^verbatim>\<open>strings.LastIndex\<close>
  give the first and the last position at which the second string occurs, or \<open>-1\<close>.
  \<^verbatim>\<open>strconv.Itoa\<close> is the decimal numeral of an integer.
\<close>

fun Index_from :: "nat \<Rightarrow> string \<Rightarrow> string \<Rightarrow> int" where
  "Index_from i [] substr = (if substr = [] then int i else - 1)"
| "Index_from i (c # s) substr =
     (if prefix substr (c # s) then int i else Index_from (i + 1) s substr)"

definition Index :: "string \<Rightarrow> string \<Rightarrow> int" where
  "Index s substr = Index_from 0 s substr"

fun LastIndex_from :: "nat \<Rightarrow> string \<Rightarrow> string \<Rightarrow> int" where
  "LastIndex_from i [] substr = (if substr = [] then int i else - 1)"
| "LastIndex_from i (c # s) substr =
     (let later = LastIndex_from (i + 1) s substr in
      if later \<noteq> - 1 then later
      else if prefix substr (c # s) then int i
      else - 1)"

definition LastIndex :: "string \<Rightarrow> string \<Rightarrow> int" where
  "LastIndex s substr = LastIndex_from 0 s substr"

text \<open>
  \<^verbatim>\<open>strings.EqualFold\<close> reads both strings as UTF-8 and compares them rune by rune
  under simple Unicode case folding. \<open>DecodeRuneInString\<close> is the decoder of the package
  \<^verbatim>\<open>utf8\<close> (the rune and the number of bytes it takes; a byte that starts no valid
  encoding is the rune \<open>RuneError\<close> of width 1), \<open>first_byte\<close> its table of leading
  bytes (the size of the encoding and the range of the second byte), and \<open>runes\<close> the
  runes of a string, as \<^verbatim>\<open>range\<close> yields them. The Unicode table of case orbits is
  data of the Go library and a parameter here: \<open>caseOrbit r\<close> names the orbit of the
  rune \<open>r\<close> under \<^verbatim>\<open>unicode.SimpleFold\<close> (by its least rune, say), and two runes
  are equal under folding when they have the same orbit.
\<close>

definition RuneError :: nat where
  "RuneError = 0xFFFD"

definition first_byte :: "nat \<Rightarrow> (nat \<times> nat \<times> nat) option" where
  "first_byte s0 =
     (if 0xC2 \<le> s0 \<and> s0 \<le> 0xDF then Some (2, 0x80, 0xBF)
      else if s0 = 0xE0 then Some (3, 0xA0, 0xBF)
      else if 0xE1 \<le> s0 \<and> s0 \<le> 0xEC then Some (3, 0x80, 0xBF)
      else if s0 = 0xED then Some (3, 0x80, 0x9F)
      else if 0xEE \<le> s0 \<and> s0 \<le> 0xEF then Some (3, 0x80, 0xBF)
      else if s0 = 0xF0 then Some (4, 0x90, 0xBF)
      else if 0xF1 \<le> s0 \<and> s0 \<le> 0xF3 then Some (4, 0x80, 0xBF)
      else if s0 = 0xF4 then Some (4, 0x80, 0x8F)
      else None)"

fun DecodeRuneInString :: "string \<Rightarrow> nat \<times> nat" where
  "DecodeRuneInString [] = (RuneError, 0)"
| "DecodeRuneInString (c0 # s) =
     (let s0 = of_char c0 in
      if s0 < 0x80 then (s0, 1)
      else (case first_byte s0 of
              None \<Rightarrow> (RuneError, 1)
            | Some (sz, lo, hi) \<Rightarrow>
                if length (c0 # s) < sz then (RuneError, 1)
                else (let s1 = of_char (s ! 0) in
                  if s1 < lo \<or> hi < s1 then (RuneError, 1)
                  else if sz \<le> 2 then ((s0 mod 32) * 64 + s1 mod 64, 2)
                  else (let s2 = of_char (s ! 1) in
                    if s2 < 0x80 \<or> 0xBF < s2 then (RuneError, 1)
                    else if sz \<le> 3 then ((s0 mod 16) * 4096 + (s1 mod 64) * 64 + s2 mod 64, 3)
                    else (let s3 = of_char (s ! 2) in
                      if s3 < 0x80 \<or> 0xBF < s3 then (RuneError, 1)
                      else ((s0 mod 8) * 262144 + (s1 mod 64) * 4096 + (s2 mod 64) * 64
                              + s3 mod 64, 4))))))"

lemma first_byte_Some:
  "first_byte s0 = Some (sz, lo, hi) \<Longrightarrow> (sz = 2 \<or> sz = 3 \<or> sz = 4) \<and> 0x80 \<le> lo \<and> 0xC2 \<le> s0"
  by (auto simp: first_byte_def split: if_splits)

lemma DecodeRuneInString_size:
  "s \<noteq> [] \<Longrightarrow> 1 \<le> snd (DecodeRuneInString s) \<and> snd (DecodeRuneInString s) \<le> length s"
proof (cases s)
  case Nil
  then show "s \<noteq> [] \<Longrightarrow> ?thesis" by simp
next
  case (Cons c0 t)
  show ?thesis
  proof (cases "first_byte (of_char c0)")
    case None
    then show ?thesis by (simp add: Cons Let_def)
  next
    case (Some x)
    obtain sz lo hi where x: "x = (sz, lo, hi)" by (cases x)
    from first_byte_Some [OF Some [unfolded x]] show ?thesis
      by (auto simp: Cons Let_def Some x Suc_le_eq)
  qed
qed

function runes :: "string \<Rightarrow> nat list" where
  "runes s =
     (if s = [] then []
      else (let (r, size) = DecodeRuneInString s in r # runes (drop size s)))"
  by pat_completeness auto
termination
proof (relation "measure length")
  show "wf (measure length)" by simp
next
  fix s :: string and x r size
  assume "s \<noteq> []" and "x = DecodeRuneInString s" and "(r, size) = x"
  with DecodeRuneInString_size [of s] show "(drop size s, s) \<in> measure length"
    by (cases "DecodeRuneInString s") auto
qed

declare runes.simps [simp del]

definition EqualFold :: "(nat \<Rightarrow> nat) \<Rightarrow> string \<Rightarrow> string \<Rightarrow> bool" where
  "EqualFold caseOrbit s t = list_all2 (\<lambda>a b. caseOrbit a = caseOrbit b) (runes s) (runes t)"

fun digits :: "nat \<Rightarrow> string" where
  "digits n =
     (if n < 10 then [''0123456789'' ! n]
      else digits (n div 10) @ [''0123456789'' ! (n mod 10)])"

definition Itoa :: "int \<Rightarrow> string" where
  "Itoa i = (if i < 0 then CHR ''-'' # digits (nat (- i)) else digits (nat i))"

text \<open>\<^verbatim>\<open>fmt.Sprintf("%v", k)\<close> for a map key.\<close>

fun Sprintf_v :: "key \<Rightarrow> string" where
  "Sprintf_v KNil = ''<nil>''"
| "Sprintf_v (Key (SString s)) = s"
| "Sprintf_v (Key (SInt i)) = Itoa i"
| "Sprintf_v (Key (SBool b)) = (if b then ''true'' else ''false'')"
| "Sprintf_v (Key (SFloat FNaN)) = ''NaN''"
| "Sprintf_v (Key (SFloat (FZero s))) = (if s then ''-0'' else ''0'')"
| "Sprintf_v (Key (SFloat (FNum r))) = r"

section \<open>Variable resolution\<close>

text \<open>
  \<^verbatim>\<open>replace(lookUp)\<close> is the function applied to the body of a token. The error it
  returns names the key.
\<close>

definition envSeparator :: string where
  "envSeparator = '':''"

definition emptyDefault :: string where
  "emptyDefault = [CHR 0x22, CHR 0x22]"

definition replace :: "(string \<Rightarrow> string \<times> bool) \<Rightarrow> string \<Rightarrow> error + string" where
  "replace lookUp inp =
     (let sep = Index inp envSeparator;
          (key', def) =
            (if sep = - 1 then (inp, [])
             else (take (nat sep) inp, drop (nat sep + 1) inp));
          (envVal, ok) = lookUp key'
      in if ok then Inr envVal
         else if def = [] then Inl (UndefinedVariable key')
         else if def = emptyDefault then Inr []
         else Inr def)"

section \<open>The lookup tree\<close>

text \<open>
  Nodes are reached through pointers and \<^verbatim>\<open>Children\<close> writes the field
  \<^verbatim>\<open>children\<close> of its receiver, so the tree lives in a store: \<open>nodes\<close> holds the
  \<^verbatim>\<open>yamlNode\<close> objects and a \<^verbatim>\<open>*yamlNode\<close> is an index into it; \<open>slices\<close>
  holds the backing arrays of the \<^verbatim>\<open>[]*yamlNode\<close> slices, and the field
  \<^verbatim>\<open>children\<close> of a node is \<open>None\<close> for the nil slice or the index of its array.
  Allocation appends to the store. A nil or dangling pointer is an index outside
  \<open>nodes\<close>; dereferencing it panics. A failed type assertion and a slice expression out
  of bounds panic too.
\<close>

datatype panic = NilDereference | TypeAssertion | SliceBounds

record store =
  nodes :: "yamlNode list"
  slices :: "nat list list"

definition new_node :: "store \<Rightarrow> yamlNode \<Rightarrow> store \<times> nat" where
  "new_node h n = (h\<lparr>nodes := nodes h @ [n]\<rparr>, length (nodes h))"

definition make_slice :: "store \<Rightarrow> nat list \<Rightarrow> store \<times> nat" where
  "make_slice h xs = (h\<lparr>slices := slices h @ [xs]\<rparr>, length (slices h))"

text \<open>\<^verbatim>\<open>n.children = append(n.children, n2)\<close>, where \<open>c\<close> is the array of
  \<^verbatim>\<open>n.children\<close>: no other reference to that array exists while it grows.\<close>

definition append_children :: "store \<Rightarrow> nat \<Rightarrow> nat \<Rightarrow> store" where
  "append_children h c n2 = h\<lparr>slices := (slices h)[c := slices h ! c @ [n2]]\<rparr>"

text \<open>The two loops of \<^verbatim>\<open>Children\<close>, over the entries of a map and over the
  elements of a slice with their indices.\<close>

fun range_map :: "store \<Rightarrow> nat \<Rightarrow> (key \<times> gv) list \<Rightarrow> store" where
  "range_map h c [] = h"
| "range_map h c ((k, v) # m) =
     (let (h1, n2) = new_node h \<lparr>nodeType = getNodeType v, key = Sprintf_v k, val = v,
                                  children = None\<rparr>
      in range_map (append_children h1 c n2) c m)"

fun range_slice :: "store \<Rightarrow> nat \<Rightarrow> nat \<Rightarrow> gv list \<Rightarrow> store" where
  "range_slice h c k [] = h"
| "range_slice h c k (v # xs) =
     (let (h1, n2) = new_node h \<lparr>nodeType = getNodeType v, key = Itoa (int k), val = v,
                                  children = None\<rparr>
      in range_slice (append_children h1 c n2) c (k + 1) xs)"

text \<open>The body of \<^verbatim>\<open>if n.children == nil\<close>.\<close>

definition fill_children :: "store \<Rightarrow> nat \<Rightarrow> panic + store" where
  "fill_children h n =
     (let (h0, c) = make_slice h [];
          h1 = h0\<lparr>nodes := (nodes h0)[n := (nodes h0 ! n)\<lparr>children := Some c\<rparr>]\<rparr>
      in case nodeType (nodes h1 ! n) of
           objectNode \<Rightarrow>
             (case val (nodes h1 ! n) of
                GMap m \<Rightarrow> Inr (range_map h1 c m)
              | _ \<Rightarrow> Inl TypeAssertion)
         | arrayNode \<Rightarrow>
             (case val (nodes h1 ! n) of
                GSeq xs \<Rightarrow> Inr (range_slice h1 c 0 xs)
              | _ \<Rightarrow> Inl TypeAssertion)
         | valueNode \<Rightarrow> Inr h1)"

text \<open>\<^verbatim>\<open>nodes := make([]*yamlNode, len(n.children)); copy(nodes, n.children)\<close>.\<close>

definition copy_children :: "store \<Rightarrow> nat \<Rightarrow> store \<times> nat" where
  "copy_children h n =
     (case children (nodes h ! n) of
        None \<Rightarrow> make_slice h []
      | Some c \<Rightarrow> make_slice h (slices h ! c))"

definition Children :: "store \<Rightarrow> nat \<Rightarrow> panic + store \<times> nat" where
  "Children h n =
     (if length (nodes h) \<le> n then Inl NilDereference
      else if children (nodes h ! n) = None then
        (case fill_children h n of
           Inl p \<Rightarrow> Inl p
         | Inr h1 \<Rightarrow> Inr (copy_children h1 n))
      else Inr (copy_children h n))"

text \<open>
  What \<^verbatim>\<open>Children\<close> is to compute, in the words of the spec: for an object node one
  child per entry of the mapping, its key rendered as text; for an array node one child
  per element, labelled with its decimal index; for a value node no child. A child is a
  node that has no children yet.
\<close>

definition mk_child :: "string \<Rightarrow> gv \<Rightarrow> yamlNode" where
  "mk_child k v = \<lparr>nodeType = getNodeType v, key = k, val = v, children = None\<rparr>"

definition expansion :: "yamlNode \<Rightarrow> yamlNode list" where
  "expansion n =
     (case nodeType n of
        objectNode \<Rightarrow>
          (case val n of
             GMap m \<Rightarrow> map (\<lambda>(k, v). mk_child (Sprintf_v k) v) m
           | _ \<Rightarrow> [])
      | arrayNode \<Rightarrow>
          (case val n of
             GSeq xs \<Rightarrow> map (\<lambda>(i, v). mk_child (Itoa (int i)) v) (enumerate 0 xs)
           | _ \<Rightarrow> [])
      | valueNode \<Rightarrow> [])"

text \<open>
  A store is well formed when the kind of every node is the kind of its value, as
  \<^verbatim>\<open>newYAMLProviderCore\<close> and \<^verbatim>\<open>Children\<close> construct nodes, and the children
  of a node, once computed, are a slice of the store that holds pointers to nodes of the
  store. \<open>store_le h h'\<close> says that \<open>h'\<close> is \<open>h\<close> after more of the program has run: every
  slice and every node of \<open>h\<close> is still there, and a node differs at most by children
  that were not computed in \<open>h\<close>.
\<close>

definition wf_store :: "store \<Rightarrow> bool" where
  "wf_store h \<longleftrightarrow>
     (\<forall>n < length (nodes h).
        nodeType (nodes h ! n) = getNodeType (val (nodes h ! n)) \<and>
        (\<forall>c. children (nodes h ! n) = Some c \<longrightarrow>
           c < length (slices h) \<and> (\<forall>v \<in> set (slices h ! c). v < length (nodes h))))"

definition store_le :: "store \<Rightarrow> store \<Rightarrow> bool" where
  "store_le h h' \<longleftrightarrow>
     prefix (slices h) (slices h') \<and> length (nodes h) \<le> length (nodes h') \<and>
     (\<forall>n < length (nodes h).
        (\<exists>c. nodes h' ! n = (nodes h ! n)\<lparr>children := c\<rparr>) \<and>
        (children (nodes h ! n) \<noteq> None \<longrightarrow> nodes h' ! n = nodes h ! n))"

text \<open>\<open>cached_as h n c cs\<close>: in the store \<open>h\<close> the field \<^verbatim>\<open>children\<close> of the node
  \<open>n\<close> is the slice \<open>c\<close>, which holds the pointers \<open>cs\<close>.\<close>

definition cached_as :: "store \<Rightarrow> nat \<Rightarrow> nat \<Rightarrow> nat list \<Rightarrow> bool" where
  "cached_as h n c cs \<longleftrightarrow>
     n < length (nodes h) \<and> children (nodes h ! n) = Some c \<and> c < length (slices h) \<and> slices h ! c = cs"

text \<open>\<open>returns_stably f h\<close>: run from the store \<open>h\<close>, the search \<open>f\<close> returns without
  panic, in a well-formed later store and with a node of that store if it finds one,
  and run again from any later store it returns the same result.\<close>

definition returns_stably :: "(store \<Rightarrow> panic + store \<times> nat option) \<Rightarrow> store \<Rightarrow> bool" where
  "returns_stably f h \<longleftrightarrow>
     (\<exists>h1 r. f h = Inr (h1, r) \<and> wf_store h1 \<and> store_le h h1
        \<and> (\<forall>a. r = Some a \<longrightarrow> a < length (nodes h1))
        \<and> (\<forall>h2. store_le h1 h2 \<longrightarrow> (\<exists>h3. f h2 = Inr (h3, r) \<and> store_le h2 h3)))"

text \<open>
  The dot has no case variant when no other rune shares its orbit, which is so in the
  Unicode table. \<open>sample_orbit\<close> is a part of that table, for examples: the ASCII
  letters, the Kelvin sign (in the orbit of \<open>K\<close>) and the letter E with acute accent;
  every other rune is alone in its orbit.
\<close>

definition dot_uncased :: "(nat \<Rightarrow> nat) \<Rightarrow> bool" where
  "dot_uncased caseOrbit \<longleftrightarrow> (\<forall>r. caseOrbit r = caseOrbit 46 \<longrightarrow> r = 46)"

definition sample_orbit :: "nat \<Rightarrow> nat" where
  "sample_orbit r =
     (if 97 \<le> r \<and> r \<le> 122 then r - 32
      else if r = 0x212A then 75
      else if r = 0xE9 then 0xC9
      else r)"

text \<open>
  \<open>aligned caseOrbit p c q d\<close>: the candidate \<open>c\<close> of the path \<open>p\<close> and the candidate
  \<open>d\<close> of the path \<open>q\<close> are equal under folding, and so is what follows them in the two
  paths, which is nothing or starts with the separator.
\<close>

definition aligned :: "(nat \<Rightarrow> nat) \<Rightarrow> string \<Rightarrow> string \<Rightarrow> string \<Rightarrow> string \<Rightarrow> bool" where
  "aligned co p c q d \<longleftrightarrow>
     (\<exists>rp rq. p = c @ rp \<and> q = d @ rq \<and> EqualFold co c d \<and> EqualFold co rp rq
        \<and> (rp = [] \<or> (\<exists>x. rp = CHR ''.'' # x)))"

text \<open>Modelled from the spec: the constant \<^verbatim>\<open>_separator\<close> of the package, declared
  outside this file; the spec fixes the separator of a lookup path to the character
  \<^verbatim>\<open>.\<close>.\<close>

definition separator :: string where
  "separator = ''.''"

text \<open>A position that \<^verbatim>\<open>LastIndex\<close> reports lies inside the string.\<close>

lemma LastIndex_from_less:
  "substr \<noteq> [] \<Longrightarrow> LastIndex_from i s substr < int (i + length s)"
proof (induction s arbitrary: i)
  case Nil
  then show ?case by simp
next
  case (Cons c s)
  from Cons.IH [OF Cons.prems, of "i + 1"] show ?case
    by (auto simp: Let_def)
qed

lemma LastIndex_less:
  "0 < LastIndex cur separator \<Longrightarrow> nat (LastIndex cur separator) < length cur"
  using LastIndex_from_less [of separator 0 cur]
  by (auto simp add: LastIndex_def separator_def)

text \<open>
  \<^verbatim>\<open>Find\<close>: \<open>Find_loop\<close> is the loop over the candidate \<^verbatim>\<open>curr\<close> (written
  \<open>cur\<close>) and \<open>Find_range\<close> the loop over the children, which ends with \<open>Some\<close> node
  when the source returns from inside it and with \<open>None\<close> when it runs to its end.
\<close>

function Find :: "(nat \<Rightarrow> nat) \<Rightarrow> store \<Rightarrow> nat \<Rightarrow> string \<Rightarrow> panic + store \<times> nat option"
  and Find_loop :: "(nat \<Rightarrow> nat) \<Rightarrow> store \<Rightarrow> nat \<Rightarrow> string \<Rightarrow> string \<Rightarrow> panic + store \<times> nat option"
  and Find_range :: "(nat \<Rightarrow> nat) \<Rightarrow> store \<Rightarrow> nat list \<Rightarrow> string \<Rightarrow> string \<Rightarrow> panic + store \<times> nat option"
where
  "Find caseOrbit h n dottedPath = Find_loop caseOrbit h n dottedPath dottedPath"
| "Find_loop caseOrbit h n dottedPath cur =
     (if length cur = 0 then Inr (h, None)
      else (case Children h n of
              Inl p \<Rightarrow> Inl p
            | Inr (h1, vs) \<Rightarrow>
                (case Find_range caseOrbit h1 (slices h1 ! vs) dottedPath cur of
                   Inl p \<Rightarrow> Inl p
                 | Inr (h2, Some node) \<Rightarrow> Inr (h2, Some node)
                 | Inr (h2, None) \<Rightarrow>
                     (let last = LastIndex cur separator in
                      if last > 0 then Find_loop caseOrbit h2 n dottedPath (take (nat last) cur)
                      else Inr (h2, None)))))"
| "Find_range caseOrbit h [] dottedPath cur = Inr (h, None)"
| "Find_range caseOrbit h (v # vs) dottedPath cur =
     (if length (nodes h) \<le> v then Inl NilDereference
      else if EqualFold caseOrbit (key (nodes h ! v)) cur then
        (if cur = dottedPath then Inr (h, Some v)
         else if length dottedPath < length cur + 1 then Inl SliceBounds
         else (case Find caseOrbit h v (drop (length cur + 1) dottedPath) of
                 Inl p \<Rightarrow> Inl p
               | Inr (h', Some node) \<Rightarrow> Inr (h', Some node)
               | Inr (h', None) \<Rightarrow> Find_range caseOrbit h' vs dottedPath cur))
      else Find_range caseOrbit h vs dottedPath cur)"
  by pat_completeness auto

termination
  by (relation "measures [
       (\<lambda>x. case x of Inl (co, h, n, p) \<Rightarrow> length p
                     | Inr (Inl (co, h, n, p, c)) \<Rightarrow> length p
                     | Inr (Inr (co, h, vs, p, c)) \<Rightarrow> length p),
       (\<lambda>x. case x of Inl (co, h, n, p) \<Rightarrow> length p + 1
                     | Inr (Inl (co, h, n, p, c)) \<Rightarrow> length c
                     | Inr (Inr (co, h, vs, p, c)) \<Rightarrow> length c),
       (\<lambda>x. case x of Inl (co, h, n, p) \<Rightarrow> 0
                     | Inr (Inl (co, h, n, p, c)) \<Rightarrow> 1
                     | Inr (Inr (co, h, vs, p, c)) \<Rightarrow> 0),
       (\<lambda>x. case x of Inl (co, h, n, p) \<Rightarrow> 0
                     | Inr (Inl (co, h, n, p, c)) \<Rightarrow> 0
                     | Inr (Inr (co, h, vs, p, c)) \<Rightarrow> length vs)]")
     (auto simp: min_less_iff_disj LastIndex_less)

section \<open>Properties of the merge engine\<close>


lemma mergeMaps_GNil_left: "mergeMaps GNil v = Inr v"
  by simp

lemma mergeMaps_GNil_right: "mergeMaps v GNil = Inr v"
  by simp

lemma mergeMaps_GMap_GMap:
  "mergeMaps (GMap d) (GMap s) = (case mergeEntries d s of Inl err \<Rightarrow> Inl err | Inr r \<Rightarrow> Inr (GMap r))"
  by simp

declare mergeMaps.simps [simp del]

text \<open>The comparison of keys is symmetric and transitive, and reflexive on every key
  but a NaN.\<close>

lemma float_eq_sym: "float_eq a b \<Longrightarrow> float_eq b a"
  by (cases a; cases b) auto

lemma float_eq_trans: "float_eq a b \<Longrightarrow> float_eq b c \<Longrightarrow> float_eq a c"
  by (cases a; cases b; cases c) auto

lemma scalar_eq_sym: "scalar_eq a b \<Longrightarrow> scalar_eq b a"
  by (cases a; cases b) (auto dest: float_eq_sym)

lemma scalar_eq_trans: "scalar_eq a b \<Longrightarrow> scalar_eq b c \<Longrightarrow> scalar_eq a c"
  by (cases a; cases b; cases c) (auto dest: float_eq_trans)

lemma key_eq_sym: "key_eq a b \<Longrightarrow> key_eq b a"
  by (cases a; cases b) (auto dest: scalar_eq_sym)

lemma key_eq_trans: "key_eq a b \<Longrightarrow> key_eq b c \<Longrightarrow> key_eq a c"
  by (cases a; cases b; cases c) (auto dest: scalar_eq_trans)

lemma key_eq_self: "key_eq a b \<Longrightarrow> key_eq a a \<and> key_eq b b"
  by (meson key_eq_sym key_eq_trans)

lemma key_eq_cong: "key_eq k k' \<Longrightarrow> key_eq a k = key_eq a k'"
  by (meson key_eq_sym key_eq_trans)

lemma map_index_lookup:
  "map_index d k = (case map_lookup d k of None \<Rightarrow> GNil | Some v \<Rightarrow> v)"
  by (induction d) auto

lemma map_lookup_cong: "key_eq k k' \<Longrightarrow> map_lookup d k = map_lookup d k'"
  by (induction d) (auto simp: key_eq_cong)

lemma map_lookup_Some_key:
  "map_lookup d k = Some v \<Longrightarrow> \<exists>e \<in> set d. key_eq (fst e) k"
  by (induction d) (auto split: if_splits)

lemma map_lookup_None_iff:
  "map_lookup d k = None \<longleftrightarrow> (\<forall>e \<in> set d. \<not> key_eq (fst e) k)"
proof (induction d)
  case Nil
  then show ?case by simp
next
  case (Cons a d)
  obtain k0 v0 where a: "a = (k0, v0)" by (cases a)
  show ?case using Cons.IH by (cases "key_eq k0 k") (simp_all add: a)
qed

lemma map_lookup_assign:
  "map_lookup (map_assign d k v) k' = (if key_eq k k' then Some v else map_lookup d k')"
proof (induction d)
  case Nil
  then show ?case by simp
next
  case (Cons a d)
  obtain k0 v0 where a: "a = (k0, v0)" by (cases a)
  show ?case
  proof (cases "key_eq k0 k")
    case True
    then have "key_eq k0 k' = key_eq k k'" by (meson key_eq_sym key_eq_trans)
    with True show ?thesis by (simp add: a)
  next
    case False
    then have "\<not> (key_eq k0 k' \<and> key_eq k k')" by (meson key_eq_sym key_eq_trans)
    with False Cons.IH show ?thesis by (auto simp: a)
  qed
qed

lemma map_index_assign:
  "map_index (map_assign d k v) k' = (if key_eq k k' then v else map_index d k')"
  by (simp add: map_index_lookup map_lookup_assign)

lemma map_assign_NaN: "\<not> key_eq k k \<Longrightarrow> map_assign d k v = d @ [(k, v)]"
  by (induction d) (auto dest: key_eq_self)

lemma NaN_entries_assign:
  "NaN_entries (map_assign d k v) = (if key_eq k k then NaN_entries d else NaN_entries d @ [(k, v)])"
proof (cases "key_eq k k")
  case True
  have "NaN_entries (map_assign d k v) = NaN_entries d"
    by (induction d) (use True in \<open>auto simp: NaN_entries_def dest: key_eq_self\<close>)
  with True show ?thesis by simp
next
  case False
  then show ?thesis by (simp add: map_assign_NaN NaN_entries_def)
qed

lemma map_assign_keys: "fst ` set (map_assign d k v) \<subseteq> insert k (fst ` set d)"
proof (induction d)
  case Nil
  then show ?case by simp
next
  case (Cons a d)
  obtain k0 v0 where a: "a = (k0, v0)" by (cases a)
  show ?case using Cons.IH by (cases "key_eq k0 k") (auto simp: a)
qed


text \<open>One step of the loop: writing the source value for a \<^verbatim>\<open>nil\<close> old value is the
  recursive merge with \<^verbatim>\<open>nil\<close>.\<close>

lemma mergeEntries_Cons:
  "mergeEntries d ((k, v) # s) =
     (case mergeMaps (map_index d k) v of
        Inl err \<Rightarrow> Inl err
      | Inr t \<Rightarrow> mergeEntries (map_assign d k t) s)"
  by (simp add: Let_def mergeMaps_GNil_left)

lemma distinct_keys_lookup_tail:
  assumes "distinct_keys ((k1, v1) # s)" and "map_lookup s k = Some sv"
  shows "\<not> key_eq k1 k"
proof
  assume "key_eq k1 k"
  from map_lookup_Some_key [OF assms(2)] obtain e where e: "e \<in> set s" "key_eq (fst e) k" by blast
  with \<open>key_eq k1 k\<close> have "key_eq k1 (fst e)" by (meson key_eq_sym key_eq_trans)
  with assms(1) e(1) show False by auto
qed

lemma mergeEntries_result:
  "distinct_keys s \<Longrightarrow> mergeEntries d s = Inr r \<Longrightarrow>
     map_lookup r k =
       (case map_lookup s k of
          None \<Rightarrow> map_lookup d k
        | Some sv \<Rightarrow> (case mergeMaps (map_index d k) sv of Inr t \<Rightarrow> Some t | Inl e \<Rightarrow> None))"
proof (induction s arbitrary: d)
  case Nil
  then show ?case by simp
next
  case (Cons a s)
  obtain k1 v1 where a: "a = (k1, v1)" by (cases a)
  from Cons.prems obtain t where t: "mergeMaps (map_index d k1) v1 = Inr t"
    and r: "mergeEntries (map_assign d k1 t) s = Inr r"
    unfolding a mergeEntries_Cons by (auto split: sum.splits)
  from Cons.prems have ds: "distinct_keys s" by (simp add: a)
  note IH = Cons.IH [OF ds r, unfolded map_lookup_assign map_index_assign]
  show ?case
  proof (cases "key_eq k1 k")
    case True
    have "map_lookup s k = None"
    proof (cases "map_lookup s k")
      case (Some sv)
      from distinct_keys_lookup_tail [OF Cons.prems(1) [unfolded a] Some] True show ?thesis by simp
    qed simp
    moreover have "map_index d k = map_index d k1"
      using True by (simp add: map_index_lookup map_lookup_cong [OF True])
    ultimately show ?thesis using IH True t by (simp add: a)
  next
    case False
    with IH show ?thesis by (simp add: a cong: option.case_cong)
  qed
qed

lemma mergeEntries_error:
  "distinct_keys s \<Longrightarrow> mergeEntries d s = Inl err \<Longrightarrow>
     \<exists>k sv. map_lookup s k = Some sv \<and> mergeMaps (map_index d k) sv = Inl err"
proof (induction s arbitrary: d)
  case Nil
  then show ?case by simp
next
  case (Cons a s)
  obtain k1 v1 where a: "a = (k1, v1)" by (cases a)
  from Cons.prems have ds: "distinct_keys s" by (simp add: a)
  show ?case
  proof (cases "mergeMaps (map_index d k1) v1")
    case (Inl e)
    with Cons.prems(2) have e: "e = err" unfolding a mergeEntries_Cons by simp
    have "map_index d k1 \<noteq> GNil" using Inl by (auto simp: mergeMaps_GNil_left)
    then obtain x where "map_lookup d k1 = Some x"
      by (auto simp: map_index_lookup split: option.splits)
    from map_lookup_Some_key [OF this] have "key_eq k1 k1" by (blast dest: key_eq_self)
    then have "map_lookup (a # s) k1 = Some v1" by (simp add: a)
    with Inl e show ?thesis by blast
  next
    case (Inr t)
    with Cons.prems(2) have "mergeEntries (map_assign d k1 t) s = Inl err"
      unfolding a mergeEntries_Cons by simp
    from Cons.IH [OF ds this] obtain k sv where
      sv: "map_lookup s k = Some sv" and f: "mergeMaps (map_index (map_assign d k1 t) k) sv = Inl err"
      by blast
    from distinct_keys_lookup_tail [OF Cons.prems(1) [unfolded a] sv] have ne: "\<not> key_eq k1 k" .
    with sv f have "map_lookup (a # s) k = Some sv \<and> mergeMaps (map_index d k) sv = Inl err"
      by (simp add: a map_index_assign)
    then show ?thesis by blast
  qed
qed

lemma mergeEntries_fails:
  "distinct_keys s \<Longrightarrow> map_lookup s k = Some sv \<Longrightarrow> mergeMaps (map_index d k) sv = Inl e \<Longrightarrow>
     \<exists>err. mergeEntries d s = Inl err"
proof (induction s arbitrary: d)
  case Nil
  then show ?case by simp
next
  case (Cons a s)
  obtain k1 v1 where a: "a = (k1, v1)" by (cases a)
  from Cons.prems have ds: "distinct_keys s" by (simp add: a)
  show ?case
  proof (cases "mergeMaps (map_index d k1) v1")
    case (Inl e')
    then show ?thesis unfolding a mergeEntries_Cons by simp
  next
    case (Inr t)
    have ne: "\<not> key_eq k1 k"
    proof
      assume eq: "key_eq k1 k"
      then have "map_index d k = map_index d k1"
        by (simp add: map_index_lookup map_lookup_cong [OF eq])
      with Cons.prems(2,3) eq Inr show False by (simp add: a)
    qed
    with Cons.prems(2) have "map_lookup s k = Some sv" by (simp add: a)
    moreover from Cons.prems(3) ne have "mergeMaps (map_index (map_assign d k1 t) k) sv = Inl e"
      by (simp add: map_index_assign)
    ultimately have "\<exists>err. mergeEntries (map_assign d k1 t) s = Inl err"
      by (rule Cons.IH [OF ds])
    then show ?thesis unfolding a mergeEntries_Cons using Inr by simp
  qed
qed

lemma mergeEntries_NaN_entries:
  "mergeEntries d s = Inr r \<Longrightarrow> NaN_entries r = NaN_entries d @ NaN_entries s"
proof (induction s arbitrary: d)
  case Nil
  then show ?case by (simp add: NaN_entries_def)
next
  case (Cons a s)
  obtain k1 v1 where a: "a = (k1, v1)" by (cases a)
  from Cons.prems obtain t where t: "mergeMaps (map_index d k1) v1 = Inr t"
    and r: "mergeEntries (map_assign d k1 t) s = Inr r"
    unfolding a mergeEntries_Cons by (auto split: sum.splits)
  note IH = Cons.IH [OF r, unfolded NaN_entries_assign]
  show ?case
  proof (cases "key_eq k1 k1")
    case True
    with IH show ?thesis by (simp add: a NaN_entries_def)
  next
    case False
    then have "map_lookup d k1 = None"
      by (auto simp: map_lookup_None_iff dest: key_eq_self)
    with t have "t = v1" by (simp add: map_index_lookup mergeMaps_GNil_left)
    with IH False show ?thesis by (simp add: a NaN_entries_def)
  qed
qed

lemma mergeEntries_keys:
  "mergeEntries d s = Inr r \<Longrightarrow> fst ` set r \<subseteq> fst ` set d \<union> fst ` set s"
proof (induction s arbitrary: d)
  case Nil
  then show ?case by simp
next
  case (Cons a s)
  obtain k1 v1 where a: "a = (k1, v1)" by (cases a)
  from Cons.prems obtain t where r: "mergeEntries (map_assign d k1 t) s = Inr r"
    unfolding a mergeEntries_Cons by (auto split: sum.splits)
  from Cons.IH [OF r] map_assign_keys [of d k1 t] show ?case
    by (auto simp: a)
qed

lemma mergeEntries_cong_index:
  "(\<And>k'. map_index d k' = map_index d' k') \<Longrightarrow>
   (\<And>k'. \<forall>e \<in> set s. \<not> key_eq (fst e) k' \<Longrightarrow> map_lookup d k' = map_lookup d' k') \<Longrightarrow>
   NaN_entries d = NaN_entries d' \<Longrightarrow>
   rel_sum (=) (\<lambda>r r'. (\<forall>k'. map_lookup r k' = map_lookup r' k') \<and> NaN_entries r = NaN_entries r')
     (mergeEntries d s) (mergeEntries d' s)"
proof (induction s arbitrary: d d')
  case Nil
  then show ?case by auto
next
  case (Cons a s)
  obtain k1 v1 where a: "a = (k1, v1)" by (cases a)
  have eq: "map_index d' k1 = map_index d k1" by (simp add: Cons.prems(1))
  show ?case
  proof (cases "mergeMaps (map_index d k1) v1")
    case (Inl e)
    then show ?thesis unfolding a mergeEntries_Cons eq by simp
  next
    case (Inr t)
    have "rel_sum (=) (\<lambda>r r'. (\<forall>k'. map_lookup r k' = map_lookup r' k') \<and> NaN_entries r = NaN_entries r')
            (mergeEntries (map_assign d k1 t) s) (mergeEntries (map_assign d' k1 t) s)"
    proof (rule Cons.IH)
      fix k'
      show "map_index (map_assign d k1 t) k' = map_index (map_assign d' k1 t) k'"
        by (simp add: map_index_assign Cons.prems(1))
    next
      fix k'
      assume no: "\<forall>e \<in> set s. \<not> key_eq (fst e) k'"
      show "map_lookup (map_assign d k1 t) k' = map_lookup (map_assign d' k1 t) k'"
      proof (cases "key_eq k1 k'")
        case True
        then show ?thesis by (simp add: map_lookup_assign)
      next
        case False
        with no have "\<forall>e \<in> set (a # s). \<not> key_eq (fst e) k'" by (simp add: a)
        from Cons.prems(2) [OF this] False show ?thesis by (simp add: map_lookup_assign)
      qed
    next
      show "NaN_entries (map_assign d k1 t) = NaN_entries (map_assign d' k1 t)"
        by (simp add: NaN_entries_assign Cons.prems(3))
    qed
    then show ?thesis unfolding a mergeEntries_Cons eq using Inr by simp
  qed
qed

lemma map_lookup_delete:
  "map_lookup (filter (\<lambda>e. \<not> key_eq (fst e) k) d) k' =
     (if key_eq k k' then None else map_lookup d k')"
proof (induction d)
  case Nil
  then show ?case by simp
next
  case (Cons a d)
  obtain k0 v0 where a: "a = (k0, v0)" by (cases a)
  show ?case
  proof (cases "key_eq k0 k")
    case True
    then have "key_eq k0 k' = key_eq k k'" by (meson key_eq_sym key_eq_trans)
    with True Cons.IH show ?thesis by (simp add: a)
  next
    case False
    then have "\<not> (key_eq k0 k' \<and> key_eq k k')" by (meson key_eq_sym key_eq_trans)
    with False Cons.IH show ?thesis by (auto simp: a)
  qed
qed

lemma NaN_entries_delete:
  "NaN_entries (filter (\<lambda>e. \<not> key_eq (fst e) k) d) = NaN_entries d"
  unfolding NaN_entries_def filter_filter
  by (rule filter_cong) (auto dest: key_eq_self)

text \<open>
  C1. The claim: merging a mapping with a non-mapping, non-nil value fails in both
  directions. The code fails in one direction only: with the mapping as \<open>src\<close> and the
  other value as \<open>dst\<close> it returns the conflict, and with the mapping as \<open>dst\<close> and the
  other value as \<open>src\<close> it returns \<open>src\<close> and no error, although the comment of
  \<^verbatim>\<open>mergeMaps\<close> announces an error for a map \<open>A\<close> and a non-map \<open>B\<close>.
\<close>

theorem mergeMaps_mapping_and_non_mapping:
  assumes "x \<noteq> GNil" and "getNodeType x \<noteq> objectNode"
  shows "mergeMaps (GMap m) x = Inr x
       \<and> mergeMaps x (GMap m) = Inl (MergeConflict x (GMap m))"
  using assms by (cases x) (simp_all add: mergeMaps.simps)

theorem mergeMaps_mapping_and_non_mapping_witness:
  "GScalar (SString ''x'') \<noteq> GNil
   \<and> getNodeType (GScalar (SString ''x'')) \<noteq> objectNode
   \<and> mergeMaps (GMap [(Key (SString ''a''), GScalar (SInt 1))]) (GScalar (SString ''x''))
       = Inr (GScalar (SString ''x''))
   \<and> mergeMaps (GScalar (SString ''x'')) (GMap [(Key (SString ''a''), GScalar (SInt 1))])
       = Inl (MergeConflict (GScalar (SString ''x''))
                (GMap [(Key (SString ''a''), GScalar (SInt 1))]))"
  using mergeMaps_mapping_and_non_mapping
          [of "GScalar (SString ''x'')" "[(Key (SString ''a''), GScalar (SInt 1))]"]
  by simp

text \<open>
  C2, as amended. For two mappings \<open>dst\<close> and \<open>src\<close> (\<open>src\<close> a Go map: no two equal keys),
  the merge fails exactly when the recursive merge of the two values of a key present in
  both fails, and the error it returns is the error of such a recursive merge. When it
  does not fail, the result is a mapping whose keys come from \<open>dst\<close> and \<open>src\<close> and which
  holds a key exactly when \<open>dst\<close> or \<open>src\<close> holds it; a key only in \<open>src\<close> has the value
  of \<open>src\<close>, a key only in \<open>dst\<close> keeps its value, and a key in both has the recursive
  merge of the two values. A NaN key is in neither sense a key of both: the NaN entries
  of the result are those of \<open>dst\<close> followed by those of \<open>src\<close>.
\<close>

theorem mergeMaps_mappings:
  assumes "distinct_keys s"
  shows "(\<forall>err. mergeMaps (GMap d) (GMap s) = Inl err \<longrightarrow>
            (\<exists>k dv sv. map_lookup d k = Some dv \<and> map_lookup s k = Some sv
                        \<and> mergeMaps dv sv = Inl err))
       \<and> (\<forall>k dv sv err. map_lookup d k = Some dv \<and> map_lookup s k = Some sv
                          \<and> mergeMaps dv sv = Inl err \<longrightarrow>
            (\<exists>err'. mergeMaps (GMap d) (GMap s) = Inl err'))
       \<and> (\<forall>r. mergeMaps (GMap d) (GMap s) = Inr r \<longrightarrow>
            (\<exists>m. r = GMap m
               \<and> fst ` set m \<subseteq> fst ` set d \<union> fst ` set s
               \<and> (\<forall>k. map_lookup m k \<noteq> None \<longleftrightarrow>
                       map_lookup d k \<noteq> None \<or> map_lookup s k \<noteq> None)
               \<and> NaN_entries m = NaN_entries d @ NaN_entries s
               \<and> (\<forall>k sv. map_lookup d k = None \<and> map_lookup s k = Some sv \<longrightarrow>
                     map_lookup m k = Some sv)
               \<and> (\<forall>k. map_lookup s k = None \<longrightarrow> map_lookup m k = map_lookup d k)
               \<and> (\<forall>k dv sv. map_lookup d k = Some dv \<and> map_lookup s k = Some sv \<longrightarrow>
                     (\<exists>t. mergeMaps dv sv = Inr t \<and> map_lookup m k = Some t))))"
proof (intro conjI allI impI)
  fix err
  assume "mergeMaps (GMap d) (GMap s) = Inl err"
  then have "mergeEntries d s = Inl err"
    by (simp add: mergeMaps_GMap_GMap split: sum.splits)
  from mergeEntries_error [OF assms this] obtain k sv where
    sv: "map_lookup s k = Some sv" and f: "mergeMaps (map_index d k) sv = Inl err"
    by blast
  from f have "map_index d k \<noteq> GNil" by (auto simp: mergeMaps_GNil_left)
  then obtain dv where "map_lookup d k = Some dv" and "map_index d k = dv"
    by (auto simp: map_index_lookup split: option.splits)
  with sv f show "\<exists>k dv sv. map_lookup d k = Some dv \<and> map_lookup s k = Some sv
                        \<and> mergeMaps dv sv = Inl err"
    by blast
next
  fix k dv sv err
  assume a: "map_lookup d k = Some dv \<and> map_lookup s k = Some sv \<and> mergeMaps dv sv = Inl err"
  then have "mergeMaps (map_index d k) sv = Inl err" by (simp add: map_index_lookup)
  from mergeEntries_fails [OF assms _ this] a obtain err' where "mergeEntries d s = Inl err'"
    by blast
  then show "\<exists>err'. mergeMaps (GMap d) (GMap s) = Inl err'"
    by (simp add: mergeMaps_GMap_GMap)
next
  fix r
  assume r: "mergeMaps (GMap d) (GMap s) = Inr r"
  then obtain m where m: "r = GMap m" and me: "mergeEntries d s = Inr m"
    by (auto simp: mergeMaps_GMap_GMap split: sum.splits)
  note res = mergeEntries_result [OF assms me]
  have nofail: "\<exists>t. mergeMaps (map_index d k) sv = Inr t" if "map_lookup s k = Some sv" for k sv
  proof (cases "mergeMaps (map_index d k) sv")
    case (Inl e)
    from mergeEntries_fails [OF assms that Inl] me show ?thesis by simp
  next
    case (Inr t)
    then show ?thesis by blast
  qed
  have only_src: "map_lookup m k = Some sv" if "map_lookup d k = None \<and> map_lookup s k = Some sv" for k sv
    using res [of k] that by (simp add: map_index_lookup mergeMaps_GNil_left)
  have only_dst: "map_lookup m k = map_lookup d k" if "map_lookup s k = None" for k
    using res [of k] that by simp
  have both: "\<exists>t. mergeMaps dv sv = Inr t \<and> map_lookup m k = Some t"
    if "map_lookup d k = Some dv \<and> map_lookup s k = Some sv" for k dv sv
    using res [of k] that nofail [of k sv] by (auto simp: map_index_lookup)
  have dom: "map_lookup m k \<noteq> None \<longleftrightarrow> map_lookup d k \<noteq> None \<or> map_lookup s k \<noteq> None" for k
    using res [of k] nofail [of k] by (auto split: option.splits)
  show "\<exists>m. r = GMap m
               \<and> fst ` set m \<subseteq> fst ` set d \<union> fst ` set s
               \<and> (\<forall>k. map_lookup m k \<noteq> None \<longleftrightarrow>
                       map_lookup d k \<noteq> None \<or> map_lookup s k \<noteq> None)
               \<and> NaN_entries m = NaN_entries d @ NaN_entries s
               \<and> (\<forall>k sv. map_lookup d k = None \<and> map_lookup s k = Some sv \<longrightarrow>
                     map_lookup m k = Some sv)
               \<and> (\<forall>k. map_lookup s k = None \<longrightarrow> map_lookup m k = map_lookup d k)
               \<and> (\<forall>k dv sv. map_lookup d k = Some dv \<and> map_lookup s k = Some sv \<longrightarrow>
                     (\<exists>t. mergeMaps dv sv = Inr t \<and> map_lookup m k = Some t))"
    using m mergeEntries_keys [OF me] mergeEntries_NaN_entries [OF me] dom only_src only_dst both
    by blast
qed

theorem mergeMaps_mappings_witness:
  "distinct_keys [(Key (SString ''a''), GMap [(Key (SString ''y''), GScalar (SInt 9)), (Key (SString ''z''), GScalar (SInt 3))])]
   \<and> mergeMaps
        (GMap [(Key (SString ''a''), GMap [(Key (SString ''x''), GScalar (SInt 1)), (Key (SString ''y''), GScalar (SInt 2))])])
        (GMap [(Key (SString ''a''), GMap [(Key (SString ''y''), GScalar (SInt 9)), (Key (SString ''z''), GScalar (SInt 3))])])
      = Inr (GMap [(Key (SString ''a''), GMap [(Key (SString ''x''), GScalar (SInt 1)), (Key (SString ''y''), GScalar (SInt 9)), (Key (SString ''z''), GScalar (SInt 3))])])
   \<and> mergeMaps (GMap [(Key (SFloat FNaN), GScalar (SString ''s'')), (Key (SFloat (FZero False)), GScalar (SInt 1))])
                (GMap [(Key (SFloat FNaN), GMap [(Key (SString ''x''), GScalar (SInt 1))]),
                       (Key (SFloat (FZero True)), GScalar (SInt 2))])
      = Inr (GMap [(Key (SFloat FNaN), GScalar (SString ''s'')), (Key (SFloat (FZero True)), GScalar (SInt 2)),
                   (Key (SFloat FNaN), GMap [(Key (SString ''x''), GScalar (SInt 1))])])"
  using mergeMaps_mappings
    [of "[(Key (SString ''a''), GMap [(Key (SString ''y''), GScalar (SInt 9)), (Key (SString ''z''), GScalar (SInt 3))])]"
        "[(Key (SString ''a''), GMap [(Key (SString ''x''), GScalar (SInt 1)), (Key (SString ''y''), GScalar (SInt 2))])]"]
  by (simp add: mergeMaps.simps)

text \<open>The claim as written, that the merge of two mappings is always a mapping, fails
  where a key holds a scalar in \<open>dst\<close> and a mapping in \<open>src\<close>.\<close>

theorem mergeMaps_mappings_counterexample:
  "mergeMaps (GMap [(Key (SString ''a''), GScalar (SString ''s''))])
             (GMap [(Key (SString ''a''), GMap [(Key (SString ''x''), GScalar (SInt 1))])])
   = Inl (MergeConflict (GScalar (SString ''s'')) (GMap [(Key (SString ''x''), GScalar (SInt 1))]))"
  by (simp add: mergeMaps.simps)

text \<open>
  C3. For every \<open>src\<close> that is neither a mapping nor \<^verbatim>\<open>nil\<close> and every \<open>dst\<close> that is
  not a mapping (\<^verbatim>\<open>nil\<close> included), the merge returns \<open>src\<close> itself; two sequences
  are not merged element by element.
\<close>

theorem mergeMaps_overwrite:
  assumes "src \<noteq> GNil" and "getNodeType src \<noteq> objectNode" and "getNodeType dst \<noteq> objectNode"
  shows "mergeMaps dst src = Inr src"
  using assms by (cases src) (simp_all add: mergeMaps.simps)

theorem mergeMaps_overwrite_witness:
  "GSeq [GScalar (SInt 3)] \<noteq> GNil
   \<and> getNodeType (GSeq [GScalar (SInt 3)]) \<noteq> objectNode
   \<and> getNodeType (GSeq [GScalar (SInt 1), GScalar (SInt 2)]) \<noteq> objectNode
   \<and> mergeMaps (GSeq [GScalar (SInt 1), GScalar (SInt 2)]) (GSeq [GScalar (SInt 3)])
       = Inr (GSeq [GScalar (SInt 3)])"
  using mergeMaps_overwrite [of "GSeq [GScalar (SInt 3)]" "GSeq [GScalar (SInt 1), GScalar (SInt 2)]"]
  by simp

text \<open>
  C4. \<^verbatim>\<open>nil\<close> is an identity of the merge on both sides, without error; merging
  \<^verbatim>\<open>nil\<close> with \<^verbatim>\<open>nil\<close> gives \<^verbatim>\<open>nil\<close>, and a provider built from no document
  has the root value \<^verbatim>\<open>nil\<close>.
\<close>

theorem mergeMaps_nil_identity:
  "mergeMaps GNil v = Inr v
   \<and> mergeMaps v GNil = Inr v
   \<and> mergeMaps GNil GNil = Inr GNil
   \<and> newYAMLProviderCore Root [] = Inr \<lparr>nodeType = valueNode, key = Root, val = GNil, children = None\<rparr>"
  by (simp add: mergeMaps.simps newYAMLProviderCore_def)

text \<open>
  C9. In a merge of two mappings, a key whose value in \<open>dst\<close> is an explicit
  \<^verbatim>\<open>nil\<close> is treated as an absent key: the value of \<open>src\<close> is what the result holds
  for it, the outcome of the whole merge (the error, or a mapping that answers every
  read alike and has the same NaN entries) is the one obtained after
  \<^verbatim>\<open>delete(dst, k)\<close>, and no conflict arises at the key, whatever the value of
  \<open>src\<close> is.
\<close>

theorem mergeMaps_nil_destination_value:
  assumes "distinct_keys s" and "map_lookup d k = Some GNil" and "map_lookup s k = Some v"
  shows "(\<forall>m. mergeMaps (GMap d) (GMap s) = Inr (GMap m) \<longrightarrow> map_lookup m k = Some v)
       \<and> rel_sum (=)
            (\<lambda>r r'. \<exists>m m'. r = GMap m \<and> r' = GMap m'
                       \<and> (\<forall>k'. map_lookup m k' = map_lookup m' k')
                       \<and> NaN_entries m = NaN_entries m')
            (mergeMaps (GMap d) (GMap s))
            (mergeMaps (GMap (filter (\<lambda>e. \<not> key_eq (fst e) k) d)) (GMap s))
       \<and> mergeMaps (GMap [(k, GNil)]) (GMap [(k, v)]) = Inr (GMap [(k, v)])"
proof (intro conjI allI impI)
  fix m
  assume "mergeMaps (GMap d) (GMap s) = Inr (GMap m)"
  then have "mergeEntries d s = Inr m"
    by (simp add: mergeMaps_GMap_GMap split: sum.splits)
  from mergeEntries_result [OF assms(1) this, of k] assms(2,3)
  show "map_lookup m k = Some v"
    by (simp add: map_index_lookup mergeMaps_GNil_left)
next
  let ?d' = "filter (\<lambda>e. \<not> key_eq (fst e) k) d"
  have idx: "map_index d k = GNil" using assms(2) by (simp add: map_index_lookup)
  from map_lookup_Some_key [OF assms(3)] obtain es where es: "es \<in> set s" "key_eq (fst es) k"
    by blast
  have "rel_sum (=) (\<lambda>r r'. (\<forall>k'. map_lookup r k' = map_lookup r' k') \<and> NaN_entries r = NaN_entries r')
          (mergeEntries d s) (mergeEntries ?d' s)"
  proof (rule mergeEntries_cong_index)
    fix k'
    show "map_index d k' = map_index ?d' k'"
    proof (cases "key_eq k k'")
      case True
      then have "map_index d k' = map_index d k"
        by (simp add: map_index_lookup map_lookup_cong [OF True])
      with True idx show ?thesis by (simp add: map_index_lookup map_lookup_delete)
    next
      case False
      then show ?thesis by (simp add: map_index_lookup map_lookup_delete)
    qed
  next
    fix k'
    assume no: "\<forall>e \<in> set s. \<not> key_eq (fst e) k'"
    have "\<not> key_eq k k'"
    proof
      assume "key_eq k k'"
      with es(2) have "key_eq (fst es) k'" by (rule key_eq_trans)
      with no es(1) show False by blast
    qed
    then show "map_lookup d k' = map_lookup ?d' k'" by (simp add: map_lookup_delete)
  next
    show "NaN_entries d = NaN_entries ?d'" by (simp add: NaN_entries_delete)
  qed
  then show "rel_sum (=)
            (\<lambda>r r'. \<exists>m m'. r = GMap m \<and> r' = GMap m'
                       \<and> (\<forall>k'. map_lookup m k' = map_lookup m' k')
                       \<and> NaN_entries m = NaN_entries m')
            (mergeMaps (GMap d) (GMap s)) (mergeMaps (GMap ?d') (GMap s))"
    by (auto simp: mergeMaps_GMap_GMap rel_sum.simps split: sum.splits)
next
  from map_lookup_Some_key [OF assms(2)] have "key_eq k k" by (blast dest: key_eq_self)
  then show "mergeMaps (GMap [(k, GNil)]) (GMap [(k, v)]) = Inr (GMap [(k, v)])"
    by (simp add: mergeMaps_GMap_GMap)
qed

theorem mergeMaps_nil_destination_value_witness:
  "distinct_keys [(Key (SString ''a''), GMap [(Key (SString ''x''), GScalar (SInt 1))])]
   \<and> map_lookup [(Key (SString ''a''), GNil), (Key (SString ''b''), GScalar (SInt 2))] (Key (SString ''a'')) = Some GNil
   \<and> map_lookup [(Key (SString ''a''), GMap [(Key (SString ''x''), GScalar (SInt 1))])] (Key (SString ''a''))
       = Some (GMap [(Key (SString ''x''), GScalar (SInt 1))])
   \<and> mergeMaps (GMap [(Key (SString ''a''), GNil), (Key (SString ''b''), GScalar (SInt 2))])
                (GMap [(Key (SString ''a''), GMap [(Key (SString ''x''), GScalar (SInt 1))])])
      = Inr (GMap [(Key (SString ''a''), GMap [(Key (SString ''x''), GScalar (SInt 1))]),
                   (Key (SString ''b''), GScalar (SInt 2))])"
  using mergeMaps_nil_destination_value
    [of "[(Key (SString ''a''), GMap [(Key (SString ''x''), GScalar (SInt 1))])]"
        "[(Key (SString ''a''), GNil), (Key (SString ''b''), GScalar (SInt 2))]"
        "Key (SString ''a'')" "GMap [(Key (SString ''x''), GScalar (SInt 1))]"]
  by (simp add: mergeMaps.simps)

section \<open>Properties of variable resolution\<close>

text \<open>The body of a token is its key \<open>K\<close>, or \<open>K\<close>, the separator and the default text
  \<open>D\<close>; the key is what stands before the first separator.\<close>


lemma Index_from_absent:
  "c \<notin> set s \<Longrightarrow> Index_from i s [c] = - 1"
  by (induction s arbitrary: i) auto

lemma Index_from_first:
  "c \<notin> set K \<Longrightarrow> Index_from i (K @ c # D) [c] = int (i + length K)"
  by (induction K arbitrary: i) auto

lemma replace_no_separator:
  assumes "CHR '':'' \<notin> set K"
  shows "replace lookUp K =
           (if snd (lookUp K) then Inr (fst (lookUp K)) else Inl (UndefinedVariable K))"
  using Index_from_absent [OF assms, of 0]
  by (simp add: replace_def Index_def envSeparator_def split: prod.splits)

lemma replace_separator:
  assumes "CHR '':'' \<notin> set K"
  shows "replace lookUp (K @ '':'' @ D) =
           (if snd (lookUp K) then Inr (fst (lookUp K))
            else if D = [] then Inl (UndefinedVariable K)
            else if D = emptyDefault then Inr []
            else Inr D)"
  using Index_from_first [OF assms, of 0 D]
  by (simp add: replace_def Index_def envSeparator_def split: prod.splits)

text \<open>
  C6. For a token with key \<open>K\<close> and default text \<open>D\<close>: when the lookup of \<open>K\<close> reports
  found, its value is the result and \<open>D\<close> is ignored; otherwise an empty \<open>D\<close> gives the
  error that names \<open>K\<close>, a \<open>D\<close> made of two double quotes gives the empty string, and
  any other \<open>D\<close> is the result. A token without separator has the empty default.
\<close>

theorem replace_resolution:
  assumes "CHR '':'' \<notin> set K"
  shows "replace lookUp (K @ '':'' @ D) =
           (if snd (lookUp K) then Inr (fst (lookUp K))
            else if D = [] then Inl (UndefinedVariable K)
            else if D = [CHR 0x22, CHR 0x22] then Inr []
            else Inr D)
       \<and> replace lookUp K =
           (if snd (lookUp K) then Inr (fst (lookUp K)) else Inl (UndefinedVariable K))"
  using replace_separator [OF assms] replace_no_separator [OF assms]
  by (simp add: emptyDefault_def)

theorem replace_resolution_witness:
  "CHR '':'' \<notin> set ''P''
   \<and> replace (\<lambda>k. ([], False)) ''P:8080'' = Inr ''8080''
   \<and> replace (\<lambda>k. (''9090'', True)) ''P:8080'' = Inr ''9090''
   \<and> replace (\<lambda>k. ([], False)) (''P:'' @ [CHR 0x22, CHR 0x22]) = Inr []
   \<and> replace (\<lambda>k. ([], False)) ''P'' = Inl (UndefinedVariable ''P'')"
  using replace_resolution [of "''P''" "\<lambda>k. ([], False)" "''8080''"]
        replace_resolution [of "''P''" "\<lambda>k. (''9090'', True)" "''8080''"]
        replace_resolution [of "''P''" "\<lambda>k. ([], False)" "[CHR 0x22, CHR 0x22]"]
  by simp

text \<open>
  C10. A token body that ends with the separator, the default written but empty, resolves
  exactly as the body without separator: when the lookup of the key reports not found,
  the result is the error that names the key, not the empty string.
\<close>

theorem replace_written_empty_default:
  assumes "CHR '':'' \<notin> set K"
  shows "replace lookUp (K @ '':'') = replace lookUp K
       \<and> (\<not> snd (lookUp K) \<longrightarrow> replace lookUp (K @ '':'') = Inl (UndefinedVariable K))"
  using replace_separator [OF assms, of lookUp "[]"] replace_no_separator [OF assms, of lookUp]
  by simp

theorem replace_written_empty_default_witness:
  "CHR '':'' \<notin> set ''KEY''
   \<and> \<not> snd ((\<lambda>k. ([], False)) ''KEY'')
   \<and> replace (\<lambda>k. ([], False)) ''KEY:'' = Inl (UndefinedVariable ''KEY'')
   \<and> replace (\<lambda>k. ([], False)) ''KEY'' = Inl (UndefinedVariable ''KEY'')"
  using replace_written_empty_default [of "''KEY''" "\<lambda>k. ([], False)"]
  by (simp add: replace_def Index_def envSeparator_def)

section \<open>Properties of the lookup tree\<close>

lemma range_map_nodes:
  "nodes (range_map h c m) = nodes h @ map (\<lambda>(k, v). mk_child (Sprintf_v k) v) m"
  by (induction h c m rule: range_map.induct)
     (simp_all add: new_node_def append_children_def mk_child_def)

lemma range_map_slices:
  "c < length (slices h) \<Longrightarrow>
     slices (range_map h c m) = (slices h)[c := slices h ! c @ [length (nodes h) ..< length (nodes h) + length m]]"
proof (induction m arbitrary: h)
  case Nil
  then show ?case by simp
next
  case (Cons a m)
  obtain k v where a: "a = (k, v)" by (cases a)
  have upt: "[length (nodes h) ..< length (nodes h) + length (a # m)] =
             length (nodes h) # [Suc (length (nodes h)) ..< length (nodes h) + length (a # m)]"
    by (rule upt_conv_Cons) simp
  show ?case
    unfolding upt using Cons.prems
    by (simp add: a new_node_def append_children_def Cons.IH del: upt_Suc)
qed

lemma range_slice_nodes:
  "nodes (range_slice h c k xs) = nodes h @ map (\<lambda>(i, v). mk_child (Itoa (int i)) v) (enumerate k xs)"
  by (induction h c k xs rule: range_slice.induct)
     (simp_all add: new_node_def append_children_def mk_child_def)

lemma range_slice_slices:
  "c < length (slices h) \<Longrightarrow>
     slices (range_slice h c k xs) = (slices h)[c := slices h ! c @ [length (nodes h) ..< length (nodes h) + length xs]]"
proof (induction xs arbitrary: h k)
  case Nil
  then show ?case by simp
next
  case (Cons v xs)
  have upt: "[length (nodes h) ..< length (nodes h) + length (v # xs)] =
             length (nodes h) # [Suc (length (nodes h)) ..< length (nodes h) + length (v # xs)]"
    by (rule upt_conv_Cons) simp
  show ?case
    unfolding upt using Cons.prems
    by (simp add: new_node_def append_children_def Cons.IH del: upt_Suc)
qed

text \<open>The store after the first expansion of a node, and the two cases of
  \<^verbatim>\<open>Children\<close>.\<close>

lemma fill_children_eq:
  assumes "n < length (nodes h)" and "nodeType (nodes h ! n) = getNodeType (val (nodes h ! n))"
  shows "fill_children h n =
           Inr \<lparr>nodes = (nodes h)[n := (nodes h ! n)\<lparr>children := Some (length (slices h))\<rparr>] @ expansion (nodes h ! n),
                slices = slices h @ [[length (nodes h) ..< length (nodes h) + length (expansion (nodes h ! n))]]\<rparr>"
proof (cases "val (nodes h ! n)")
  case GNil
  with assms show ?thesis by (simp add: fill_children_def make_slice_def expansion_def)
next
  case (GScalar x)
  with assms show ?thesis by (simp add: fill_children_def make_slice_def expansion_def)
next
  case (GSeq xs)
  with assms show ?thesis
    by (simp add: fill_children_def make_slice_def expansion_def range_slice_nodes range_slice_slices)
next
  case (GMap m)
  with assms show ?thesis
    by (simp add: fill_children_def make_slice_def expansion_def range_map_nodes range_map_slices)
qed


lemma Children_first:
  assumes "n < length (nodes h)" and "nodeType (nodes h ! n) = getNodeType (val (nodes h ! n))"
    and "children (nodes h ! n) = None"
  shows "Children h n =
           Inr (\<lparr>nodes = (nodes h)[n := (nodes h ! n)\<lparr>children := Some (length (slices h))\<rparr>] @ expansion (nodes h ! n),
                 slices = slices h @ [[length (nodes h) ..< length (nodes h) + length (expansion (nodes h ! n))],
                                      [length (nodes h) ..< length (nodes h) + length (expansion (nodes h ! n))]]\<rparr>,
                Suc (length (slices h)))"
  using assms
  by (simp add: Children_def fill_children_eq copy_children_def make_slice_def nth_append)

lemma Children_cached:
  assumes "n < length (nodes h)" and "children (nodes h ! n) = Some c"
  shows "Children h n = Inr (h\<lparr>slices := slices h @ [slices h ! c]\<rparr>, length (slices h))"
  using assms by (simp add: Children_def copy_children_def make_slice_def)

declare Find.simps [simp del] Find_loop.simps [simp del] Find_range.simps [simp del]

text \<open>Runes and the separator: the byte of the dot is the rune of the dot and no other
  encoding gives that rune.\<close>

lemma of_char_dot: "of_char (CHR ''.'') = (46 :: nat)"
  by simp

lemma DecodeRuneInString_ascii:
  "of_char c < (0x80 :: nat) \<Longrightarrow> DecodeRuneInString (c # s) = (of_char c, 1)"
  by (simp add: Let_def)

text \<open>A dot after some bytes ends the rune that is being decoded, as the end of the
  string does.\<close>

lemma DecodeRuneInString_before_dot:
  assumes "a \<noteq> []"
  shows "DecodeRuneInString (a @ CHR ''.'' # b) = DecodeRuneInString a"
proof -
  from assms obtain c0 t where a: "a = c0 # t" by (cases a) auto
  show ?thesis
  proof (cases "first_byte (of_char c0)")
    case None
    then show ?thesis by (simp add: a Let_def)
  next
    case (Some x)
    obtain sz lo hi where x: "x = (sz, lo, hi)" by (cases x)
    from first_byte_Some [OF Some [unfolded x]]
    have sz: "sz = 2 \<or> sz = 3 \<or> sz = 4" and lo: "0x80 \<le> lo" by auto
    consider "t = []" | c1 where "t = [c1]" | c1 c2 where "t = [c1, c2]"
      | c1 c2 c3 u where "t = c1 # c2 # c3 # u"
      by (cases t; cases "tl t"; cases "tl (tl t)") auto
    then show ?thesis
    proof cases
      case 1
      with sz lo show ?thesis by (auto simp: a Let_def Some x)
    next
      case 2
      with sz lo show ?thesis by (auto simp: a Let_def Some x)
    next
      case 3
      with sz lo show ?thesis by (auto simp: a Let_def Some x)
    next
      case 4
      with sz lo show ?thesis by (auto simp: a Let_def Some x)
    qed
  qed
qed

lemma runes_Nil [simp]: "runes [] = []"
  by (simp add: runes.simps)

lemma runes_Nil_iff [simp]: "runes s = [] \<longleftrightarrow> s = []"
  by (cases "DecodeRuneInString s") (simp add: runes.simps)

lemma runes_dot_Cons: "runes (CHR ''.'' # s) = 46 # runes s"
  by (simp add: runes.simps [of "CHR ''.'' # s"] Let_def)

lemma runes_dot:
  "runes (a @ CHR ''.'' # b) = runes a @ 46 # runes b"
proof (induction a rule: length_induct)
  case (1 a)
  show ?case
  proof (cases "a = []")
    case True
    then show ?thesis by (simp add: runes_dot_Cons)
  next
    case False
    obtain r w where d: "DecodeRuneInString a = (r, w)" by (cases "DecodeRuneInString a")
    from DecodeRuneInString_size [OF False] d have w: "1 \<le> w" "w \<le> length a" by auto
    then have "length (drop w a) < length a" using False by simp
    with 1 have IH: "runes (drop w a @ CHR ''.'' # b) = runes (drop w a) @ 46 # runes b" by blast
    have "runes (a @ CHR ''.'' # b) = r # runes (drop w (a @ CHR ''.'' # b))"
      using False d DecodeRuneInString_before_dot [OF False, of b]
      by (simp add: runes.simps [of "a @ CHR ''.'' # b"])
    also have "drop w (a @ CHR ''.'' # b) = drop w a @ CHR ''.'' # b" using w by simp
    also have "r # runes (drop w a @ CHR ''.'' # b) = runes a @ 46 # runes b"
      using IH False d by (simp add: runes.simps [of a])
    finally show ?thesis .
  qed
qed

lemma first_byte_2:
  "first_byte s0 = Some (sz, lo, hi) \<Longrightarrow> sz \<le> 2 \<Longrightarrow> 194 \<le> s0 \<and> s0 \<le> 223"
  by (auto simp: first_byte_def split: if_splits)

lemma first_byte_3:
  "first_byte s0 = Some (sz, lo, hi) \<Longrightarrow> \<not> sz \<le> 2 \<Longrightarrow> sz \<le> 3 \<Longrightarrow>
     hi \<le> 191 \<and> (s0 = 224 \<and> lo = 160 \<or> 225 \<le> s0 \<and> s0 \<le> 239)"
  by (auto simp: first_byte_def split: if_splits)

lemma first_byte_4:
  "first_byte s0 = Some (sz, lo, hi) \<Longrightarrow> \<not> sz \<le> 3 \<Longrightarrow>
     hi \<le> 191 \<and> (s0 = 240 \<and> lo = 144 \<or> 241 \<le> s0 \<and> s0 \<le> 244)"
  by (auto simp: first_byte_def split: if_splits)

lemma mod_window: "m * q \<le> (s :: nat) \<Longrightarrow> s < m * q + m \<Longrightarrow> s mod m = s - m * q"
proof -
  assume a: "m * q \<le> s" and b: "s < m * q + m"
  then obtain k where k: "s = m * q + k" and "k < m"
    by (metis add_diff_inverse_nat add_less_cancel_left not_less)
  then show ?thesis by simp
qed

lemma rune_2: "194 \<le> s0 \<Longrightarrow> s0 \<le> 223 \<Longrightarrow> (s0 :: nat) mod 32 * 64 + y \<noteq> 46"
proof -
  assume a: "194 \<le> s0" and b: "s0 \<le> 223"
  have "s0 mod 32 = s0 - 32 * 6" by (rule mod_window) (use a b in simp_all)
  with a have "2 \<le> s0 mod 32" by arith
  then have "128 \<le> s0 mod 32 * 64" by simp
  then show ?thesis by simp
qed

lemma rune_3:
  assumes "s0 = 224 \<and> 160 \<le> s1 \<and> s1 \<le> 191 \<or> 225 \<le> s0 \<and> s0 \<le> 239"
  shows "(s0 :: nat) mod 16 * 4096 + s1 mod 64 * 64 + y \<noteq> 46"
  using assms
proof
  assume a: "s0 = 224 \<and> 160 \<le> s1 \<and> s1 \<le> 191"
  have "s1 mod 64 = s1 - 64 * 2" by (rule mod_window) (use a in simp_all)
  with a have "32 \<le> s1 mod 64" by arith
  then have "2048 \<le> s1 mod 64 * 64" by simp
  then show ?thesis by simp
next
  assume a: "225 \<le> s0 \<and> s0 \<le> 239"
  have "s0 mod 16 = s0 - 16 * 14" by (rule mod_window) (use a in simp_all)
  with a have "1 \<le> s0 mod 16" by arith
  then have "4096 \<le> s0 mod 16 * 4096" by simp
  then show ?thesis by simp
qed

lemma rune_4:
  assumes "s0 = 240 \<and> 144 \<le> s1 \<and> s1 \<le> 191 \<or> 241 \<le> s0 \<and> s0 \<le> 244"
  shows "(s0 :: nat) mod 8 * 262144 + s1 mod 64 * 4096 + y \<noteq> 46"
  using assms
proof
  assume a: "s0 = 240 \<and> 144 \<le> s1 \<and> s1 \<le> 191"
  have "s1 mod 64 = s1 - 64 * 2" by (rule mod_window) (use a in simp_all)
  with a have "16 \<le> s1 mod 64" by arith
  then have "65536 \<le> s1 mod 64 * 4096" by simp
  then show ?thesis by simp
next
  assume a: "241 \<le> s0 \<and> s0 \<le> 244"
  have "s0 mod 8 = s0 - 8 * 30" by (rule mod_window) (use a in simp_all)
  with a have "1 \<le> s0 mod 8" by arith
  then have "262144 \<le> s0 mod 8 * 262144" by simp
  then show ?thesis by simp
qed

lemma DecodeRuneInString_dot:
  assumes "fst (DecodeRuneInString (c0 # s)) = 46"
  shows "c0 = CHR ''.''"
proof (cases "of_char c0 < (0x80 :: nat)")
  case True
  with assms have "of_char c0 = (46 :: nat)" by (simp add: Let_def)
  then have "of_char c0 = (of_char (CHR ''.'') :: nat)" by simp
  then show ?thesis by (simp only: of_char_eq_iff)
next
  case False
  show ?thesis
  proof (cases "first_byte (of_char c0)")
    case None
    with False assms show ?thesis by (simp add: Let_def RuneError_def)
  next
    case (Some x)
    obtain sz lo hi where x: "x = (sz, lo, hi)" by (cases x)
    note fb = Some [unfolded x]
    define s0 :: nat where "s0 = of_char c0"
    define s1 :: nat where "s1 = of_char (s ! 0)"
    define s2 :: nat where "s2 = of_char (s ! 1)"
    define s3 :: nat where "s3 = of_char (s ! 2)"
    define r where "r = fst (DecodeRuneInString (c0 # s))"
    have "r = RuneError
        \<or> (sz \<le> 2 \<and> r = s0 mod 32 * 64 + s1 mod 64)
        \<or> (\<not> sz \<le> 2 \<and> sz \<le> 3 \<and> lo \<le> s1 \<and> s1 \<le> hi
             \<and> r = s0 mod 16 * 4096 + s1 mod 64 * 64 + s2 mod 64)
        \<or> (\<not> sz \<le> 3 \<and> lo \<le> s1 \<and> s1 \<le> hi
             \<and> r = s0 mod 8 * 262144 + s1 mod 64 * 4096 + (s2 mod 64 * 64 + s3 mod 64))"
      using False fb unfolding r_def s0_def s1_def s2_def s3_def
      by (simp add: Let_def add.assoc)
    then have "r \<noteq> 46"
    proof (elim disjE conjE)
      assume "r = RuneError"
      then show ?thesis by (simp add: RuneError_def)
    next
      assume "sz \<le> 2" and r: "r = s0 mod 32 * 64 + s1 mod 64"
      from first_byte_2 [OF fb [folded s0_def] this(1)] show ?thesis
        unfolding r by (intro rune_2) auto
    next
      assume a: "\<not> sz \<le> 2" "sz \<le> 3" "lo \<le> s1" "s1 \<le> hi"
        and r: "r = s0 mod 16 * 4096 + s1 mod 64 * 64 + s2 mod 64"
      from first_byte_3 [OF fb [folded s0_def] a(1,2)] a(3,4) show ?thesis
        unfolding r by (intro rune_3) auto
    next
      assume a: "\<not> sz \<le> 3" "lo \<le> s1" "s1 \<le> hi"
        and r: "r = s0 mod 8 * 262144 + s1 mod 64 * 4096 + (s2 mod 64 * 64 + s3 mod 64)"
      from first_byte_4 [OF fb [folded s0_def] a(1)] a(2,3) show ?thesis
        unfolding r by (intro rune_4) auto
    qed
    with assms show ?thesis by (simp add: r_def)
  qed
qed

lemma cached_as_write:
  "cached_as h n c cs \<Longrightarrow> r \<noteq> c \<Longrightarrow> cached_as (h\<lparr>slices := (slices h)[r := ys]\<rparr>) n c cs"
  by (simp add: cached_as_def)

lemma Children_cached_as:
  assumes "cached_as h n c cs"
  shows "Children h n = Inr (h\<lparr>slices := slices h @ [cs]\<rparr>, length (slices h))"
    and "cached_as (h\<lparr>slices := slices h @ [cs]\<rparr>) n c cs"
    and "length (slices h) \<noteq> c"
  using assms Children_cached [of n h c] by (auto simp: cached_as_def nth_append)

lemma expansion_valueNode: "nodeType n = valueNode \<Longrightarrow> expansion n = []"
  by (simp add: expansion_def)

text \<open>
  C8. \<^verbatim>\<open>Children\<close> is idempotent and memoized. The first call on a node creates the
  children from the value of the node alone, as many as the expansion of the spec has,
  in its order and with its labels (none for a value node), stores them in the node and
  returns a copy. In every later store in which the node still holds this list, a call
  returns an equal list, creates no node and leaves the list in the node; the returned
  slice is never the slice of the node, so whatever the caller writes into a returned
  slice, the node keeps its list and later calls return it.
\<close>

theorem Children_memoized:
  assumes "n < length (nodes h)"
    and "nodeType (nodes h ! n) = getNodeType (val (nodes h ! n))"
    and "children (nodes h ! n) = None"
  shows "\<exists>h1 r1 c. Children h n = Inr (h1, r1)
      \<and> map ((!) (nodes h1)) (slices h1 ! r1) = expansion (nodes h ! n)
      \<and> slices h1 ! r1 = [length (nodes h) ..< length (nodes h) + length (expansion (nodes h ! n))]
      \<and> (nodeType (nodes h ! n) = valueNode \<longrightarrow> slices h1 ! r1 = [])
      \<and> r1 \<noteq> c \<and> cached_as h1 n c (slices h1 ! r1)
      \<and> (\<forall>ys. cached_as (h1\<lparr>slices := (slices h1)[r1 := ys]\<rparr>) n c (slices h1 ! r1))
      \<and> (\<forall>h'. cached_as h' n c (slices h1 ! r1) \<longrightarrow>
            (\<exists>h2 r2. Children h' n = Inr (h2, r2)
               \<and> slices h2 ! r2 = slices h1 ! r1 \<and> nodes h2 = nodes h' \<and> r2 \<noteq> c
               \<and> cached_as h2 n c (slices h1 ! r1)
               \<and> (\<forall>ys. cached_as (h2\<lparr>slices := (slices h2)[r2 := ys]\<rparr>) n c (slices h1 ! r1))))"
proof -
  let ?N = "length (nodes h)" and ?e = "expansion (nodes h ! n)"
  let ?cs = "[?N ..< ?N + length ?e]"
  let ?c = "length (slices h)"
  let ?h1 = "\<lparr>nodes = (nodes h)[n := (nodes h ! n)\<lparr>children := Some ?c\<rparr>] @ ?e,
              slices = slices h @ [?cs, ?cs]\<rparr>"
  have call: "Children h n = Inr (?h1, Suc ?c)"
    by (rule Children_first [OF assms])
  have ret: "slices ?h1 ! Suc ?c = ?cs"
    by (simp add: nth_append)
  have new: "map ((!) (nodes ?h1)) ?cs = ?e"
    by (rule nth_equalityI) (simp_all add: nth_append)
  have cache: "cached_as ?h1 n ?c ?cs"
    using assms(1) by (simp add: cached_as_def nth_append)
  have later: "\<exists>h2 r2. Children h' n = Inr (h2, r2)
               \<and> slices h2 ! r2 = ?cs \<and> nodes h2 = nodes h' \<and> r2 \<noteq> ?c
               \<and> cached_as h2 n ?c ?cs
               \<and> (\<forall>ys. cached_as (h2\<lparr>slices := (slices h2)[r2 := ys]\<rparr>) n ?c ?cs)"
    if "cached_as h' n ?c ?cs" for h'
    using Children_cached_as [OF that] cached_as_write [of "h'\<lparr>slices := slices h' @ [?cs]\<rparr>" n ?c ?cs "length (slices h')"]
    by auto
  show ?thesis
    apply (rule exI [of _ ?h1], rule exI [of _ "Suc ?c"], rule exI [of _ ?c])
    using call new cache later cached_as_write [OF cache, of "Suc ?c"] expansion_valueNode [of "nodes h ! n"]
    unfolding ret
    by auto
qed


theorem Children_memoized_witness:
  "0 < length (nodes \<lparr>nodes = [\<lparr>nodeType = objectNode, key = [], val = GMap [(Key (SString ''A''), GScalar (SString ''b'')), (Key (SInt 7), GNil)], children = None\<rparr>], slices = []\<rparr>)
   \<and> nodeType (nodes \<lparr>nodes = [\<lparr>nodeType = objectNode, key = [], val = GMap [(Key (SString ''A''), GScalar (SString ''b'')), (Key (SInt 7), GNil)], children = None\<rparr>], slices = []\<rparr> ! 0) = getNodeType (val (nodes \<lparr>nodes = [\<lparr>nodeType = objectNode, key = [], val = GMap [(Key (SString ''A''), GScalar (SString ''b'')), (Key (SInt 7), GNil)], children = None\<rparr>], slices = []\<rparr> ! 0))
   \<and> children (nodes \<lparr>nodes = [\<lparr>nodeType = objectNode, key = [], val = GMap [(Key (SString ''A''), GScalar (SString ''b'')), (Key (SInt 7), GNil)], children = None\<rparr>], slices = []\<rparr> ! 0) = None
   \<and> Children \<lparr>nodes = [\<lparr>nodeType = objectNode, key = [], val = GMap [(Key (SString ''A''), GScalar (SString ''b'')), (Key (SInt 7), GNil)], children = None\<rparr>], slices = []\<rparr> 0 =
       Inr (\<lparr>nodes = [\<lparr>nodeType = objectNode, key = [],
                         val = GMap [(Key (SString ''A''), GScalar (SString ''b'')), (Key (SInt 7), GNil)],
                         children = Some 0\<rparr>,
                       \<lparr>nodeType = valueNode, key = ''A'', val = GScalar (SString ''b''), children = None\<rparr>,
                       \<lparr>nodeType = valueNode, key = ''7'', val = GNil, children = None\<rparr>],
              slices = [[1, 2], [1, 2]]\<rparr>, 1)"
proof -
  have call: "Children \<lparr>nodes = [\<lparr>nodeType = objectNode, key = [], val = GMap [(Key (SString ''A''), GScalar (SString ''b'')), (Key (SInt 7), GNil)], children = None\<rparr>], slices = []\<rparr> 0 =
       Inr (\<lparr>nodes = [\<lparr>nodeType = objectNode, key = [],
                         val = GMap [(Key (SString ''A''), GScalar (SString ''b'')), (Key (SInt 7), GNil)],
                         children = Some 0\<rparr>,
                       \<lparr>nodeType = valueNode, key = ''A'', val = GScalar (SString ''b''), children = None\<rparr>,
                       \<lparr>nodeType = valueNode, key = ''7'', val = GNil, children = None\<rparr>],
              slices = [[1, 2], [1, 2]]\<rparr>, 1)"
    by (simp add: Children_def fill_children_def make_slice_def copy_children_def new_node_def
          append_children_def Itoa_def)
  show ?thesis
    using Children_memoized [of 0 "\<lparr>nodes = [\<lparr>nodeType = objectNode, key = [], val = GMap [(Key (SString ''A''), GScalar (SString ''b'')), (Key (SInt 7), GNil)], children = None\<rparr>], slices = []\<rparr>"]
    by (simp only: call) simp
qed

text \<open>A search that ran once finds the same node when it runs again: the children it
  went through are kept in the nodes.\<close>

lemma node_self_update: "\<exists>c. (x :: yamlNode) = x\<lparr>children := c\<rparr>"
  by (rule exI [of _ "children x"]) simp

lemma store_le_refl: "store_le h h"
  by (simp add: store_le_def node_self_update)

lemma store_le_trans:
  assumes "store_le a b" and "store_le b c"
  shows "store_le a c"
  unfolding store_le_def
proof (intro conjI allI impI)
  show "prefix (slices a) (slices c)"
    using assms by (auto simp: store_le_def)
  show "length (nodes a) \<le> length (nodes c)"
    using assms by (auto simp: store_le_def)
next
  fix n assume n: "n < length (nodes a)"
  then have nb: "n < length (nodes b)" using assms(1) by (auto simp: store_le_def)
  from assms(1) n obtain x where x: "nodes b ! n = (nodes a ! n)\<lparr>children := x\<rparr>"
    by (auto simp: store_le_def)
  from assms(2) nb obtain y where y: "nodes c ! n = (nodes b ! n)\<lparr>children := y\<rparr>"
    by (auto simp: store_le_def)
  show "\<exists>z. nodes c ! n = (nodes a ! n)\<lparr>children := z\<rparr>"
    using x y by auto
next
  fix n assume n: "n < length (nodes a)" and c: "children (nodes a ! n) \<noteq> None"
  then have nb: "n < length (nodes b)" using assms(1) by (auto simp: store_le_def)
  from assms(1) n c have ab: "nodes b ! n = nodes a ! n" by (auto simp: store_le_def)
  with assms(2) nb c show "nodes c ! n = nodes a ! n" by (auto simp: store_le_def)
qed

lemma store_le_length: "store_le h h' \<Longrightarrow> n < length (nodes h) \<Longrightarrow> n < length (nodes h')"
  by (auto simp: store_le_def)

lemma store_le_key:
  "store_le h h' \<Longrightarrow> n < length (nodes h) \<Longrightarrow> key (nodes h' ! n) = key (nodes h ! n)"
  by (auto simp: store_le_def)

lemma store_le_cached_as:
  assumes "store_le h h'" and "cached_as h n c cs"
  shows "cached_as h' n c cs"
proof -
  from assms(2) have n: "n < length (nodes h)" and ch: "children (nodes h ! n) = Some c"
    and c: "c < length (slices h)" and cs: "slices h ! c = cs"
    by (auto simp: cached_as_def)
  from assms(1) n ch have "nodes h' ! n = nodes h ! n" by (auto simp: store_le_def)
  moreover from assms(1) c have "slices h' ! c = slices h ! c" and "c < length (slices h')"
    by (auto simp: store_le_def prefix_def nth_append)
  ultimately show ?thesis using n ch cs assms(1) by (auto simp: cached_as_def store_le_def)
qed

lemma store_le_new_slice: "store_le h (h\<lparr>slices := slices h @ [cs]\<rparr>)"
  by (simp add: store_le_def node_self_update)

lemma expansion_children:
  "x \<in> set (expansion nd) \<Longrightarrow> nodeType x = getNodeType (val x) \<and> children x = None"
  by (auto simp: expansion_def mk_child_def split: nodeType.splits gv.splits)


lemma Children_wf:
  assumes wf: "wf_store h" and n: "n < length (nodes h)"
  shows "\<exists>h1 r c. Children h n = Inr (h1, r) \<and> wf_store h1 \<and> store_le h h1
           \<and> r < length (slices h1) \<and> (\<forall>v \<in> set (slices h1 ! r). v < length (nodes h1))
           \<and> cached_as h1 n c (slices h1 ! r)"
proof (cases "children (nodes h ! n)")
  case None
  let ?N = "length (nodes h)" and ?e = "expansion (nodes h ! n)"
  let ?cs = "[?N ..< ?N + length ?e]"
  let ?c = "length (slices h)"
  let ?h1 = "\<lparr>nodes = (nodes h)[n := (nodes h ! n)\<lparr>children := Some ?c\<rparr>] @ ?e,
              slices = slices h @ [?cs, ?cs]\<rparr>"
  from wf n have kind: "nodeType (nodes h ! n) = getNodeType (val (nodes h ! n))"
    by (simp add: wf_store_def)
  have call: "Children h n = Inr (?h1, Suc ?c)"
    by (rule Children_first [OF n kind None])
  have ret: "slices ?h1 ! Suc ?c = ?cs" by (simp add: nth_append)
  have wf1: "wf_store ?h1"
    unfolding wf_store_def
  proof (intro allI impI)
    fix m assume m: "m < length (nodes ?h1)"
    show "nodeType (nodes ?h1 ! m) = getNodeType (val (nodes ?h1 ! m)) \<and>
          (\<forall>c. children (nodes ?h1 ! m) = Some c \<longrightarrow>
             c < length (slices ?h1) \<and> (\<forall>v \<in> set (slices ?h1 ! c). v < length (nodes ?h1)))"
    proof (cases "m < ?N")
      case old: True
      show ?thesis
      proof (cases "m = n")
        case True
        with n kind show ?thesis by (simp add: nth_append)
      next
        case False
        with old wf show ?thesis
          by (fastforce simp: wf_store_def nth_append)
      qed
    next
      case False
      with m have "nodes ?h1 ! m \<in> set ?e"
        by (simp add: nth_append)
      from expansion_children [OF this] show ?thesis by simp
    qed
  qed
  have le: "store_le h ?h1"
    unfolding store_le_def
  proof (intro conjI allI impI)
    show "prefix (slices h) (slices ?h1)" by simp
    show "length (nodes h) \<le> length (nodes ?h1)" by simp
  next
    fix m assume "m < length (nodes h)"
    then show "\<exists>c. nodes ?h1 ! m = (nodes h ! m)\<lparr>children := c\<rparr>"
      by (cases "m = n") (auto simp: nth_append node_self_update)
  next
    fix m assume "m < length (nodes h)" and "children (nodes h ! m) \<noteq> None"
    with None show "nodes ?h1 ! m = nodes h ! m"
      by (cases "m = n") (simp_all add: nth_append)
  qed
  have cache: "cached_as ?h1 n ?c ?cs"
    using n by (simp add: cached_as_def nth_append)
  show ?thesis
    apply (rule exI [of _ ?h1], rule exI [of _ "Suc ?c"], rule exI [of _ ?c])
    using call wf1 le cache unfolding ret by simp
next
  case (Some c)
  let ?h1 = "h\<lparr>slices := slices h @ [slices h ! c]\<rparr>"
  from wf n Some have c: "c < length (slices h)" and valid: "\<forall>v \<in> set (slices h ! c). v < length (nodes h)"
    by (auto simp: wf_store_def)
  have call: "Children h n = Inr (?h1, length (slices h))"
    by (rule Children_cached [OF n Some])
  have wf1: "wf_store ?h1"
    using wf by (fastforce simp: wf_store_def nth_append)
  have cache: "cached_as ?h1 n c (slices h ! c)"
    using n Some c by (simp add: cached_as_def nth_append)
  show ?thesis
    apply (rule exI [of _ ?h1], rule exI [of _ "length (slices h)"], rule exI [of _ c])
    using call wf1 store_le_new_slice [of h] cache valid by simp
qed


lemma returns_stablyI:
  assumes "f h = Inr (h1, r)" and "wf_store h1" and "store_le h h1"
    and "\<And>a. r = Some a \<Longrightarrow> a < length (nodes h1)"
    and "\<And>h2. store_le h1 h2 \<Longrightarrow> \<exists>h3. f h2 = Inr (h3, r) \<and> store_le h2 h3"
  shows "returns_stably f h"
  unfolding returns_stably_def using assms by blast

lemma returns_stablyE:
  assumes "returns_stably f h"
  obtains h1 r where "f h = Inr (h1, r)" and "wf_store h1" and "store_le h h1"
    and "\<And>a. r = Some a \<Longrightarrow> a < length (nodes h1)"
    and "\<And>h2. store_le h1 h2 \<Longrightarrow> \<exists>h3. f h2 = Inr (h3, r) \<and> store_le h2 h3"
  using assms unfolding returns_stably_def by blast

lemma prefix_proper_length:
  "prefix c p \<Longrightarrow> c \<noteq> p \<Longrightarrow> length c < length p"
  by (metis prefix_order.dual_order.strict_iff_order prefix_length_less strict_prefix_def)

lemma Find_range_Cons_stable:
  assumes wf: "wf_store h" and v: "v < length (nodes h)" and vs: "\<forall>u \<in> set vs. u < length (nodes h)"
    and pre: "prefix c p"
    and IH1: "EqualFold co (key (nodes h ! v)) c \<Longrightarrow> c \<noteq> p \<Longrightarrow>
               returns_stably (\<lambda>h. Find co h v (drop (length c + 1) p)) h"
    and IH2: "\<And>h'. EqualFold co (key (nodes h ! v)) c \<Longrightarrow> c \<noteq> p \<Longrightarrow>
               Find co h v (drop (length c + 1) p) = Inr (h', None) \<Longrightarrow>
               wf_store h' \<Longrightarrow> store_le h h' \<Longrightarrow>
               returns_stably (\<lambda>h. Find_range co h vs p c) h'"
    and IH3: "\<not> EqualFold co (key (nodes h ! v)) c \<Longrightarrow> returns_stably (\<lambda>h. Find_range co h vs p c) h"
  shows "returns_stably (\<lambda>h. Find_range co h (v # vs) p c) h"
proof (cases "EqualFold co (key (nodes h ! v)) c")
  case nomatch: False
  from IH3 [OF nomatch] obtain h1 r where
    run: "Find_range co h vs p c = Inr (h1, r)" and wf1: "wf_store h1" and le: "store_le h h1"
    and valid: "\<And>a. r = Some a \<Longrightarrow> a < length (nodes h1)"
    and again: "\<And>h2. store_le h1 h2 \<Longrightarrow> \<exists>h3. Find_range co h2 vs p c = Inr (h3, r) \<and> store_le h2 h3"
    by (rule returns_stablyE) blast
  show ?thesis
  proof (rule returns_stablyI [where ?h1.0 = h1 and r = r])
    show "Find_range co h (v # vs) p c = Inr (h1, r)"
      using v nomatch run by (simp add: Find_range.simps)
    show "wf_store h1" by fact
    show "store_le h h1" by fact
    show "\<And>a. r = Some a \<Longrightarrow> a < length (nodes h1)" by fact
  next
    fix h2 assume le2: "store_le h1 h2"
    have hh2: "store_le h h2" by (rule store_le_trans [OF le le2])
    have "key (nodes h2 ! v) = key (nodes h ! v)" by (rule store_le_key [OF hh2 v])
    moreover have "v < length (nodes h2)" by (rule store_le_length [OF hh2 v])
    ultimately show "\<exists>h3. Find_range co h2 (v # vs) p c = Inr (h3, r) \<and> store_le h2 h3"
      using nomatch again [OF le2] by (simp add: Find_range.simps)
  qed
next
  case match: True
  show ?thesis
  proof (cases "c = p")
    case True
    show ?thesis
    proof (rule returns_stablyI [where ?h1.0 = h and r = "Some v"])
      show "Find_range co h (v # vs) p c = Inr (h, Some v)"
        using v match True by (simp add: Find_range.simps)
      show "wf_store h" by fact
      show "store_le h h" by (rule store_le_refl)
      show "\<And>a. Some v = Some a \<Longrightarrow> a < length (nodes h)" using v by simp
    next
      fix h2 assume le2: "store_le h h2"
      have "key (nodes h2 ! v) = key (nodes h ! v)" by (rule store_le_key [OF le2 v])
      moreover have "v < length (nodes h2)" by (rule store_le_length [OF le2 v])
      ultimately show "\<exists>h3. Find_range co h2 (v # vs) p c = Inr (h3, Some v) \<and> store_le h2 h3"
        using match True store_le_refl [of h2] by (simp add: Find_range.simps)
    qed
  next
    case part: False
    from prefix_proper_length [OF pre part] have inb: "\<not> length p < length c + 1" by simp
    let ?p' = "drop (length c + 1) p"
    from IH1 [OF match part] obtain h' res where
      run: "Find co h v ?p' = Inr (h', res)" and wf': "wf_store h'" and le: "store_le h h'"
      and valid: "\<And>a. res = Some a \<Longrightarrow> a < length (nodes h')"
      and again: "\<And>h2. store_le h' h2 \<Longrightarrow> \<exists>h3. Find co h2 v ?p' = Inr (h3, res) \<and> store_le h2 h3"
      by (rule returns_stablyE) blast
    show ?thesis
    proof (cases res)
      case (Some node)
      show ?thesis
      proof (rule returns_stablyI [where ?h1.0 = h' and r = "Some node"])
        show "Find_range co h (v # vs) p c = Inr (h', Some node)"
          using v match part inb run Some by (simp add: Find_range.simps)
        show "wf_store h'" by fact
        show "store_le h h'" by fact
        show "\<And>a. Some node = Some a \<Longrightarrow> a < length (nodes h')" using valid Some by simp
      next
        fix h2 assume le2: "store_le h' h2"
        have hh2: "store_le h h2" by (rule store_le_trans [OF le le2])
        have "key (nodes h2 ! v) = key (nodes h ! v)" by (rule store_le_key [OF hh2 v])
        moreover have "v < length (nodes h2)" by (rule store_le_length [OF hh2 v])
        ultimately show "\<exists>h3. Find_range co h2 (v # vs) p c = Inr (h3, Some node) \<and> store_le h2 h3"
          using match part inb again [OF le2] Some by (auto simp: Find_range.simps)
      qed
    next
      case None
      from IH2 [OF match part run [unfolded None] wf' le] obtain h1 r where
        run2: "Find_range co h' vs p c = Inr (h1, r)" and wf1: "wf_store h1" and le1: "store_le h' h1"
        and valid1: "\<And>a. r = Some a \<Longrightarrow> a < length (nodes h1)"
        and again1: "\<And>h2. store_le h1 h2 \<Longrightarrow> \<exists>h3. Find_range co h2 vs p c = Inr (h3, r) \<and> store_le h2 h3"
        by (rule returns_stablyE) blast
      show ?thesis
      proof (rule returns_stablyI [where ?h1.0 = h1 and r = r])
        show "Find_range co h (v # vs) p c = Inr (h1, r)"
          using v match part inb run None run2 by (simp add: Find_range.simps)
        show "wf_store h1" by fact
        show "store_le h h1" by (rule store_le_trans [OF le le1])
        show "\<And>a. r = Some a \<Longrightarrow> a < length (nodes h1)" by fact
      next
        fix h2 assume le2: "store_le h1 h2"
        have hh2: "store_le h h2" by (rule store_le_trans [OF store_le_trans [OF le le1] le2])
        have k: "key (nodes h2 ! v) = key (nodes h ! v)" by (rule store_le_key [OF hh2 v])
        have v2: "v < length (nodes h2)" by (rule store_le_length [OF hh2 v])
        from again [OF store_le_trans [OF le1 le2]] obtain h3a where
          f: "Find co h2 v ?p' = Inr (h3a, None)" and le3a: "store_le h2 h3a"
          using None by auto
        from again1 [OF store_le_trans [OF le2 le3a]] obtain h3 where
          g: "Find_range co h3a vs p c = Inr (h3, r)" and le3: "store_le h3a h3"
          by auto
        show "\<exists>h3. Find_range co h2 (v # vs) p c = Inr (h3, r) \<and> store_le h2 h3"
          using match part inb k v2 f g store_le_trans [OF le3a le3]
          by (auto simp: Find_range.simps)
      qed
    qed
  qed
qed


lemma Children_again:
  assumes "cached_as h1 n c cs" and "store_le h1 h2"
  shows "Children h2 n = Inr (h2\<lparr>slices := slices h2 @ [cs]\<rparr>, length (slices h2))"
    and "slices (h2\<lparr>slices := slices h2 @ [cs]\<rparr>) ! length (slices h2) = cs"
    and "store_le h2 (h2\<lparr>slices := slices h2 @ [cs]\<rparr>)"
  using Children_cached_as(1) [OF store_le_cached_as [OF assms(2,1)]] store_le_new_slice [of h2 cs]
  by simp_all

lemma Find_loop_stable_step:
  assumes wf: "wf_store h" and n: "n < length (nodes h)" and pre: "prefix c p"
    and IH1: "\<And>h1 r. c \<noteq> [] \<Longrightarrow> Children h n = Inr (h1, r) \<Longrightarrow> wf_store h1 \<Longrightarrow>
                \<forall>v \<in> set (slices h1 ! r). v < length (nodes h1) \<Longrightarrow>
                returns_stably (\<lambda>h. Find_range co h (slices h1 ! r) p c) h1"
    and IH2: "\<And>h1 r h2. c \<noteq> [] \<Longrightarrow> Children h n = Inr (h1, r) \<Longrightarrow>
                Find_range co h1 (slices h1 ! r) p c = Inr (h2, None) \<Longrightarrow>
                0 < LastIndex c separator \<Longrightarrow> wf_store h2 \<Longrightarrow> n < length (nodes h2) \<Longrightarrow>
                returns_stably (\<lambda>h. Find_loop co h n p (take (nat (LastIndex c separator)) c)) h2"
  shows "returns_stably (\<lambda>h. Find_loop co h n p c) h"
proof (cases "c = []")
  case True
  show ?thesis
  proof (rule returns_stablyI [where ?h1.0 = h and r = None])
    show "Find_loop co h n p c = Inr (h, None)" using True by (simp add: Find_loop.simps)
    show "wf_store h" by fact
    show "store_le h h" by (rule store_le_refl)
    show "\<And>a. None = Some a \<Longrightarrow> a < length (nodes h)" by simp
    show "\<And>h2. store_le h h2 \<Longrightarrow> \<exists>h3. Find_loop co h2 n p c = Inr (h3, None) \<and> store_le h2 h3"
      using True store_le_refl by (auto simp: Find_loop.simps)
  qed
next
  case ne: False
  from Children_wf [OF wf n] obtain ha ref c0 where
    call: "Children h n = Inr (ha, ref)" and wfa: "wf_store ha" and lea: "store_le h ha"
    and valid: "\<forall>v \<in> set (slices ha ! ref). v < length (nodes ha)"
    and cache: "cached_as ha n c0 (slices ha ! ref)"
    by blast
  let ?cs = "slices ha ! ref"
  from IH1 [OF ne call wfa valid] obtain hb r1 where
    run: "Find_range co ha ?cs p c = Inr (hb, r1)" and wfb: "wf_store hb" and leb: "store_le ha hb"
    and validb: "\<And>a. r1 = Some a \<Longrightarrow> a < length (nodes hb)"
    and again: "\<And>h2. store_le hb h2 \<Longrightarrow> \<exists>h3. Find_range co h2 ?cs p c = Inr (h3, r1) \<and> store_le h2 h3"
    by (rule returns_stablyE) blast
  have nb: "n < length (nodes hb)"
    by (rule store_le_length [OF store_le_trans [OF lea leb] n])
  show ?thesis
  proof (cases r1)
    case (Some node)
    show ?thesis
    proof (rule returns_stablyI [where ?h1.0 = hb and r = "Some node"])
      show "Find_loop co h n p c = Inr (hb, Some node)"
        using ne call run Some by (simp add: Find_loop.simps [of co h])
      show "wf_store hb" by fact
      show "store_le h hb" by (rule store_le_trans [OF lea leb])
      show "\<And>a. Some node = Some a \<Longrightarrow> a < length (nodes hb)" using validb Some by simp
    next
      fix h2 assume le2: "store_le hb h2"
      let ?h2' = "h2\<lparr>slices := slices h2 @ [?cs]\<rparr>"
      note ch = Children_again [OF cache store_le_trans [OF leb le2]]
      from again [OF store_le_trans [OF le2 ch(3)]] obtain h3 where
        f: "Find_range co ?h2' ?cs p c = Inr (h3, Some node)" and le3: "store_le ?h2' h3"
        using Some by auto
      show "\<exists>h3. Find_loop co h2 n p c = Inr (h3, Some node) \<and> store_le h2 h3"
        using ne ch(1) ch(2) f store_le_trans [OF ch(3) le3]
        by (auto simp: Find_loop.simps [of co h2])
    qed
  next
    case None
    show ?thesis
    proof (cases "0 < LastIndex c separator")
      case False
      show ?thesis
      proof (rule returns_stablyI [where ?h1.0 = hb and r = None])
        show "Find_loop co h n p c = Inr (hb, None)"
          using ne call run None False by (simp add: Find_loop.simps [of co h])
        show "wf_store hb" by fact
        show "store_le h hb" by (rule store_le_trans [OF lea leb])
        show "\<And>a. None = Some a \<Longrightarrow> a < length (nodes hb)" by simp
      next
        fix h2 assume le2: "store_le hb h2"
        let ?h2' = "h2\<lparr>slices := slices h2 @ [?cs]\<rparr>"
        note ch = Children_again [OF cache store_le_trans [OF leb le2]]
        from again [OF store_le_trans [OF le2 ch(3)]] obtain h3 where
          f: "Find_range co ?h2' ?cs p c = Inr (h3, None)" and le3: "store_le ?h2' h3"
          using None by auto
        show "\<exists>h3. Find_loop co h2 n p c = Inr (h3, None) \<and> store_le h2 h3"
          using ne ch(1) ch(2) f store_le_trans [OF ch(3) le3] False
          by (auto simp: Find_loop.simps [of co h2])
      qed
    next
      case True
      let ?c' = "take (nat (LastIndex c separator)) c"
      from IH2 [OF ne call run [unfolded None] True wfb nb] obtain h1 r where
        run2: "Find_loop co hb n p ?c' = Inr (h1, r)" and wf1: "wf_store h1" and le1: "store_le hb h1"
        and valid1: "\<And>a. r = Some a \<Longrightarrow> a < length (nodes h1)"
        and again1: "\<And>h2. store_le h1 h2 \<Longrightarrow> \<exists>h3. Find_loop co h2 n p ?c' = Inr (h3, r) \<and> store_le h2 h3"
        by (rule returns_stablyE) blast
      show ?thesis
      proof (rule returns_stablyI [where ?h1.0 = h1 and r = r])
        show "Find_loop co h n p c = Inr (h1, r)"
          using ne call run None True run2 by (simp add: Find_loop.simps [of co h])
        show "wf_store h1" by fact
        show "store_le h h1" by (rule store_le_trans [OF store_le_trans [OF lea leb] le1])
        show "\<And>a. r = Some a \<Longrightarrow> a < length (nodes h1)" by fact
      next
        fix h2 assume le2: "store_le h1 h2"
        let ?h2' = "h2\<lparr>slices := slices h2 @ [?cs]\<rparr>"
        have b2: "store_le hb h2" by (rule store_le_trans [OF le1 le2])
        note ch = Children_again [OF cache store_le_trans [OF leb b2]]
        from again [OF store_le_trans [OF b2 ch(3)]] obtain h3a where
          f: "Find_range co ?h2' ?cs p c = Inr (h3a, None)" and le3a: "store_le ?h2' h3a"
          using None by auto
        have "store_le h1 h3a" by (rule store_le_trans [OF le2 store_le_trans [OF ch(3) le3a]])
        from again1 [OF this] obtain h3 where
          g: "Find_loop co h3a n p ?c' = Inr (h3, r)" and le3: "store_le h3a h3"
          by auto
        show "\<exists>h3. Find_loop co h2 n p c = Inr (h3, r) \<and> store_le h2 h3"
          using ne ch(1) ch(2) f g True store_le_trans [OF ch(3) store_le_trans [OF le3a le3]]
          by (auto simp: Find_loop.simps [of co h2])
      qed
    qed
  qed
qed

lemma Find_stable:
  "wf_store h \<and> n < length (nodes h) \<longrightarrow> returns_stably (\<lambda>h. Find co h n p) h"
  "wf_store h \<and> n < length (nodes h) \<and> prefix c p \<longrightarrow> returns_stably (\<lambda>h. Find_loop co h n p c) h"
  "wf_store h \<and> (\<forall>v \<in> set vs. v < length (nodes h)) \<and> prefix c p \<longrightarrow>
     returns_stably (\<lambda>h. Find_range co h vs p c) h"
proof (induction co h n p and co h n p c and co h vs p c rule: Find_Find_loop_Find_range.induct)
  case (1 co h n dottedPath)
  then show ?case by (simp add: Find.simps)
next
  case (2 co h n dottedPath cur)
  show ?case
  proof (intro impI, elim conjE)
    assume wf: "wf_store h" and n: "n < length (nodes h)" and pre: "prefix cur dottedPath"
    show "returns_stably (\<lambda>h. Find_loop co h n dottedPath cur) h"
    proof (rule Find_loop_stable_step [OF wf n pre])
      fix h1 r
      assume "cur \<noteq> []" and "Children h n = Inr (h1, r)" and "wf_store h1"
        and "\<forall>v \<in> set (slices h1 ! r). v < length (nodes h1)"
      then show "returns_stably (\<lambda>h. Find_range co h (slices h1 ! r) dottedPath cur) h1"
        using 2(1) [of "(h1, r)" h1 r] pre by simp
    next
      fix h1 r h2
      assume "cur \<noteq> []" and "Children h n = Inr (h1, r)"
        and "Find_range co h1 (slices h1 ! r) dottedPath cur = Inr (h2, None)"
        and "0 < LastIndex cur separator" and "wf_store h2" and "n < length (nodes h2)"
      moreover have "prefix (take (nat (LastIndex cur separator)) cur) dottedPath"
        using pre by (meson prefix_order.order_trans take_is_prefix)
      ultimately show "returns_stably (\<lambda>h. Find_loop co h n dottedPath (take (nat (LastIndex cur separator)) cur)) h2"
        using 2(2) [of "(h1, r)" h1 r "(h2, None)" h2 None "LastIndex cur separator"] by simp
    qed
  qed
next
  case (3 co h dottedPath cur)
  show ?case
  proof (intro impI, elim conjE)
    assume wf: "wf_store h"
    show "returns_stably (\<lambda>h. Find_range co h [] dottedPath cur) h"
      by (rule returns_stablyI [where ?h1.0 = h and r = None])
         (use wf store_le_refl in \<open>auto simp: Find_range.simps\<close>)
  qed
next
  case (4 co h v vs dottedPath cur)
  show ?case
  proof (intro impI, elim conjE)
    assume wf: "wf_store h" and all: "\<forall>u \<in> set (v # vs). u < length (nodes h)"
      and pre: "prefix cur dottedPath"
    from all have v: "v < length (nodes h)" and vs: "\<forall>u \<in> set vs. u < length (nodes h)" by auto
    show "returns_stably (\<lambda>h. Find_range co h (v # vs) dottedPath cur) h"
    proof (rule Find_range_Cons_stable [OF wf v vs pre])
      assume m: "EqualFold co (key (nodes h ! v)) cur" and part: "cur \<noteq> dottedPath"
      from prefix_proper_length [OF pre part] have "\<not> length dottedPath < length cur + 1" by simp
      with 4(1) m part v wf
      show "returns_stably (\<lambda>h. Find co h v (drop (length cur + 1) dottedPath)) h" by simp
    next
      fix h'
      assume m: "EqualFold co (key (nodes h ! v)) cur" and part: "cur \<noteq> dottedPath"
        and run: "Find co h v (drop (length cur + 1) dottedPath) = Inr (h', None)"
        and wf': "wf_store h'" and le: "store_le h h'"
      from prefix_proper_length [OF pre part] have inb: "\<not> length dottedPath < length cur + 1" by simp
      have "\<forall>u \<in> set vs. u < length (nodes h')"
        using vs store_le_length [OF le] by blast
      with 4(2) [of "(h', None)" h' None] m part v inb run wf' pre
      show "returns_stably (\<lambda>h. Find_range co h vs dottedPath cur) h'" by simp
    next
      assume "\<not> EqualFold co (key (nodes h ! v)) cur"
      with 4(3) v wf vs pre show "returns_stably (\<lambda>h. Find_range co h vs dottedPath cur) h" by simp
    qed
  qed
qed

text \<open>Two paths that are equal under folding have their separators at corresponding
  places, so the two searches take the same steps.\<close>

lemma runes_Cons_dot:
  assumes "runes t = 46 # xs"
  shows "\<exists>t'. t = CHR ''.'' # t' \<and> xs = runes t'"
proof -
  from assms have ne: "t \<noteq> []" by auto
  obtain r w where d: "DecodeRuneInString t = (r, w)" by (cases "DecodeRuneInString t")
  from assms d ne have r: "r = 46" by (simp add: runes.simps [of t])
  from ne obtain c0 t0 where t: "t = c0 # t0" by (cases t) auto
  from d r have "fst (DecodeRuneInString (c0 # t0)) = 46" unfolding t by simp
  then have "c0 = CHR ''.''" by (rule DecodeRuneInString_dot)
  with assms t show ?thesis by (simp add: runes_dot_Cons)
qed

lemma runes_no_dot: "CHR ''.'' \<notin> set s \<Longrightarrow> 46 \<notin> set (runes s)"
proof (induction s rule: length_induct)
  case (1 s)
  show ?case
  proof (cases "s = []")
    case True
    then show ?thesis by simp
  next
    case False
    then obtain c0 t0 where s: "s = c0 # t0" by (cases s) auto
    obtain r w where d: "DecodeRuneInString s = (r, w)" by (cases "DecodeRuneInString s")
    from DecodeRuneInString_size [OF False] d have w: "1 \<le> w" by auto
    have "r \<noteq> 46"
    proof
      assume "r = 46"
      with d have "fst (DecodeRuneInString (c0 # t0)) = 46" by (simp add: s)
      then have "c0 = CHR ''.''" by (rule DecodeRuneInString_dot)
      with 1(2) s show False by simp
    qed
    moreover have "46 \<notin> set (runes (drop w s))"
    proof -
      have "length (drop w s) < length s" using w False by simp
      moreover have "CHR ''.'' \<notin> set (drop w s)" using 1(2) by (meson in_set_dropD)
      ultimately show ?thesis using 1(1) by blast
    qed
    ultimately show ?thesis using False d by (simp add: runes.simps [of s])
  qed
qed

lemma LastIndex_from_none:
  "CHR ''.'' \<notin> set s \<Longrightarrow> LastIndex_from i s ''.'' = - 1"
  by (induction s arbitrary: i) (auto simp: Let_def)

lemma LastIndex_from_split:
  "CHR ''.'' \<notin> set b \<Longrightarrow> LastIndex_from i (a @ CHR ''.'' # b) ''.'' = int (i + length a)"
proof (induction a arbitrary: i)
  case Nil
  then show ?case by (simp add: Let_def LastIndex_from_none)
next
  case (Cons x a)
  from Cons.IH [OF Cons.prems, of "i + 1"] show ?case by (simp add: Let_def)
qed

lemma LastIndex_none: "CHR ''.'' \<notin> set s \<Longrightarrow> LastIndex s separator = - 1"
  by (simp add: LastIndex_def separator_def LastIndex_from_none)

lemma LastIndex_split:
  "CHR ''.'' \<notin> set b \<Longrightarrow> LastIndex (a @ CHR ''.'' # b) separator = int (length a)"
  using LastIndex_from_split [of b 0 a] by (simp add: LastIndex_def separator_def)

lemma list_all2_last_marker:
  assumes all: "list_all2 P (xs @ z # ys) (xs' @ z # ys')"
    and mark: "\<And>x y. P x y \<Longrightarrow> (x = z \<longleftrightarrow> y = z)"
    and "z \<notin> set ys" and "z \<notin> set ys'"
  shows "list_all2 P xs xs' \<and> list_all2 P ys ys'"
proof -
  let ?l = "xs @ z # ys" and ?r = "xs' @ z # ys'"
  from all have len: "length ?l = length ?r" by (rule list_all2_lengthD)
  have nth: "P (?l ! i) (?r ! i)" if "i < length ?l" for i
    using all that by (rule list_all2_nthD)
  have "length xs = length xs'"
  proof (rule ccontr)
    assume ne: "length xs \<noteq> length xs'"
    show False
    proof (cases "length xs < length xs'")
      case True
      let ?i = "length xs'"
      have i: "?i < length ?l" using len by simp
      have "?r ! ?i = z" by simp
      with nth [OF i] mark have "?l ! ?i = z" by metis
      moreover have "?l ! ?i \<in> set ys"
        using True i by (simp add: nth_append nth_Cons')
      ultimately show False using assms(3) by simp
    next
      case False
      with ne have gt: "length xs' < length xs" by simp
      let ?i = "length xs"
      have i: "?i < length ?l" by simp
      have "?l ! ?i = z" by simp
      with nth [OF i] mark have "?r ! ?i = z" by metis
      moreover have "?r ! ?i \<in> set ys'"
        using gt i len by (simp add: nth_append nth_Cons')
      ultimately show False using assms(4) by simp
    qed
  qed
  with all show ?thesis by (simp add: list_all2_append)
qed


lemma EqualFold_refl: "EqualFold co s s"
  by (simp add: EqualFold_def list_all2_refl)

lemma EqualFold_sym: "EqualFold co s t \<Longrightarrow> EqualFold co t s"
  unfolding EqualFold_def by (auto simp: list_all2_conv_all_nth)

lemma EqualFold_trans: "EqualFold co s t \<Longrightarrow> EqualFold co t u \<Longrightarrow> EqualFold co s u"
  unfolding EqualFold_def by (auto simp: list_all2_conv_all_nth)

lemma EqualFold_Nil_left [simp]: "EqualFold co [] t \<longleftrightarrow> t = []"
  by (simp add: EqualFold_def)

lemma EqualFold_Nil_right [simp]: "EqualFold co s [] \<longleftrightarrow> s = []"
  by (simp add: EqualFold_def)

lemma EqualFold_key:
  "EqualFold co c d \<Longrightarrow> EqualFold co k d = EqualFold co k c"
  by (meson EqualFold_sym EqualFold_trans)

lemma runes_append_dot:
  "rp = [] \<or> (\<exists>x. rp = CHR ''.'' # x) \<Longrightarrow> runes (c @ rp) = runes c @ runes rp"
  by (auto simp: runes_dot runes_dot_Cons)

lemma EqualFold_append:
  assumes "EqualFold co c d" and "EqualFold co rp rq"
    and "rp = [] \<or> (\<exists>x. rp = CHR ''.'' # x)" and "rq = [] \<or> (\<exists>y. rq = CHR ''.'' # y)"
  shows "EqualFold co (c @ rp) (d @ rq)"
  using assms(1,2) unfolding EqualFold_def runes_append_dot [OF assms(3)] runes_append_dot [OF assms(4)]
  by (rule list_all2_appendI)

lemma EqualFold_dot_left:
  assumes sep: "\<forall>r. co r = co 46 \<longrightarrow> r = 46" and ef: "EqualFold co (CHR ''.'' # x) rq"
  shows "\<exists>y. rq = CHR ''.'' # y \<and> EqualFold co x y"
proof -
  from ef have "list_all2 (\<lambda>a b. co a = co b) (46 # runes x) (runes rq)"
    by (simp add: EqualFold_def runes_dot_Cons)
  then obtain b bs where rq: "runes rq = b # bs" and b: "co 46 = co b"
    and rest: "list_all2 (\<lambda>a b. co a = co b) (runes x) bs"
    by (auto simp: list_all2_Cons1)
  from b sep have "b = 46" by metis
  with rq runes_Cons_dot [of rq bs] obtain y where "rq = CHR ''.'' # y" and "bs = runes y" by auto
  with rest show ?thesis by (auto simp: EqualFold_def)
qed

lemma aligned_rest:
  assumes sep: "\<forall>r. co r = co 46 \<longrightarrow> r = 46" and "EqualFold co rp rq"
    and "rp = [] \<or> (\<exists>x. rp = CHR ''.'' # x)"
  shows "rq = [] \<or> (\<exists>y. rq = CHR ''.'' # y)"
  using assms EqualFold_dot_left [OF sep] by auto

lemma list_all2_marker_mem:
  assumes "list_all2 P xs ys" and "\<And>x y. P x y \<Longrightarrow> (x = z \<longleftrightarrow> y = z)"
  shows "z \<in> set xs \<longleftrightarrow> z \<in> set ys"
  using assms by (induction rule: list_all2_induct) auto

lemma EqualFold_dot_mem:
  assumes sep: "\<forall>r. co r = co 46 \<longrightarrow> r = 46" and ef: "EqualFold co c d"
  shows "CHR ''.'' \<in> set c \<longleftrightarrow> CHR ''.'' \<in> set d"
proof -
  have mark: "(x = 46) = (y = 46)" if "co x = co y" for x y :: nat
    using that sep by metis
  have r: "46 \<in> set (runes s) \<longleftrightarrow> CHR ''.'' \<in> set s" for s
  proof
    assume "46 \<in> set (runes s)"
    then show "CHR ''.'' \<in> set s" using runes_no_dot by blast
  next
    assume "CHR ''.'' \<in> set s"
    then obtain a b where "s = a @ CHR ''.'' # b" by (meson split_list)
    then show "46 \<in> set (runes s)" by (simp add: runes_dot)
  qed
  from list_all2_marker_mem [OF ef [unfolded EqualFold_def], of 46] mark
  have "46 \<in> set (runes c) \<longleftrightarrow> 46 \<in> set (runes d)" by blast
  then show ?thesis by (simp add: r)
qed

lemma EqualFold_LastIndex:
  assumes sep: "\<forall>r. co r = co 46 \<longrightarrow> r = 46" and ef: "EqualFold co c d"
  shows "(0 < LastIndex c separator \<longleftrightarrow> 0 < LastIndex d separator)
       \<and> (0 < LastIndex c separator \<longrightarrow>
            EqualFold co (take (nat (LastIndex c separator)) c) (take (nat (LastIndex d separator)) d)
            \<and> (\<exists>x. drop (nat (LastIndex c separator)) c = CHR ''.'' # x)
            \<and> EqualFold co (drop (nat (LastIndex c separator)) c) (drop (nat (LastIndex d separator)) d))"
proof (cases "CHR ''.'' \<in> set c")
  case False
  with EqualFold_dot_mem [OF sep ef] have "CHR ''.'' \<notin> set d" by simp
  with False show ?thesis by (simp add: LastIndex_none)
next
  case True
  then obtain a b where c: "c = a @ CHR ''.'' # b" and b: "CHR ''.'' \<notin> set b"
    by (meson split_list_last)
  from True EqualFold_dot_mem [OF sep ef] have "CHR ''.'' \<in> set d" by simp
  then obtain a' b' where d: "d = a' @ CHR ''.'' # b'" and b': "CHR ''.'' \<notin> set b'"
    by (meson split_list_last)
  have lc: "LastIndex c separator = int (length a)" unfolding c by (rule LastIndex_split [OF b])
  have ld: "LastIndex d separator = int (length a')" unfolding d by (rule LastIndex_split [OF b'])
  have mark: "(x = 46) = (y = 46)" if "co x = co y" for x y :: nat
    using that sep by metis
  have "list_all2 (\<lambda>a b. co a = co b) (runes a @ 46 # runes b) (runes a' @ 46 # runes b')"
    using ef by (simp add: EqualFold_def c d runes_dot)
  from list_all2_last_marker [OF this mark runes_no_dot [OF b] runes_no_dot [OF b']]
  have A: "EqualFold co a a'" and B: "EqualFold co b b'" by (simp_all add: EqualFold_def)
  from A have e: "a = [] \<longleftrightarrow> a' = []" by auto
  have B': "EqualFold co (CHR ''.'' # b) (CHR ''.'' # b')"
    using B by (simp add: EqualFold_def runes_dot_Cons)
  show ?thesis
    unfolding lc ld using A B' e by (simp add: c d)
qed


lemma aligned_self: "EqualFold co p q \<Longrightarrow> aligned co p p q q"
  by (auto simp: aligned_def)

lemma aligned_empty: "aligned co p c q d \<Longrightarrow> (c = [] \<longleftrightarrow> d = [])"
  by (auto simp: aligned_def)

lemma aligned_key:
  "aligned co p c q d \<Longrightarrow> EqualFold co k d = EqualFold co k c"
  unfolding aligned_def by (meson EqualFold_sym EqualFold_trans)

lemma aligned_whole:
  "aligned co p c q d \<Longrightarrow> (d = q \<longleftrightarrow> c = p)"
  by (auto simp: aligned_def)

lemma aligned_shorten:
  assumes sep: "\<forall>r. co r = co 46 \<longrightarrow> r = 46" and al: "aligned co p c q d"
  shows "(0 < LastIndex d separator \<longleftrightarrow> 0 < LastIndex c separator)"
    and "0 < LastIndex c separator \<Longrightarrow>
           aligned co p (take (nat (LastIndex c separator)) c) q (take (nat (LastIndex d separator)) d)"
proof -
  from al obtain rp rq where p: "p = c @ rp" and q: "q = d @ rq" and cd: "EqualFold co c d"
    and r: "EqualFold co rp rq" and brp: "rp = [] \<or> (\<exists>x. rp = CHR ''.'' # x)"
    by (auto simp: aligned_def)
  note li = EqualFold_LastIndex [OF sep cd]
  from li show "(0 < LastIndex d separator \<longleftrightarrow> 0 < LastIndex c separator)" by simp
  assume pos: "0 < LastIndex c separator"
  let ?lc = "nat (LastIndex c separator)" and ?ld = "nat (LastIndex d separator)"
  from li pos have t: "EqualFold co (take ?lc c) (take ?ld d)"
    and x: "\<exists>x. drop ?lc c = CHR ''.'' # x"
    and dr: "EqualFold co (drop ?lc c) (drop ?ld d)" by simp_all
  from aligned_rest [OF sep r brp] have brq: "rq = [] \<or> (\<exists>y. rq = CHR ''.'' # y)" .
  have "EqualFold co (drop ?lc c @ rp) (drop ?ld d @ rq)"
    by (rule EqualFold_append [OF dr r brp brq])
  moreover have "p = take ?lc c @ (drop ?lc c @ rp)" by (simp add: p)
  moreover have "q = take ?ld d @ (drop ?ld d @ rq)" by (simp add: q)
  moreover have "drop ?lc c @ rp = [] \<or> (\<exists>y. drop ?lc c @ rp = CHR ''.'' # y)"
    using x by auto
  ultimately show "aligned co p (take ?lc c) q (take ?ld d)"
    using t unfolding aligned_def by blast
qed

lemma aligned_descend:
  assumes sep: "\<forall>r. co r = co 46 \<longrightarrow> r = 46" and al: "aligned co p c q d" and part: "c \<noteq> p"
  shows "\<not> length p < length c + 1" and "\<not> length q < length d + 1"
    and "EqualFold co (drop (length c + 1) p) (drop (length d + 1) q)"
proof -
  from al obtain rp rq where p: "p = c @ rp" and q: "q = d @ rq"
    and r: "EqualFold co rp rq" and brp: "rp = [] \<or> (\<exists>x. rp = CHR ''.'' # x)"
    by (auto simp: aligned_def)
  from part p brp obtain x where rp: "rp = CHR ''.'' # x" by auto
  from EqualFold_dot_left [OF sep r [unfolded rp]] obtain y where rq: "rq = CHR ''.'' # y"
    and xy: "EqualFold co x y" by blast
  show "\<not> length p < length c + 1" by (simp add: p rp)
  show "\<not> length q < length d + 1" by (simp add: q rq)
  show "EqualFold co (drop (length c + 1) p) (drop (length d + 1) q)"
    using xy by (simp add: p q rp rq)
qed

lemma Find_fold:
  "(\<forall>r. co r = co 46 \<longrightarrow> r = 46) \<longrightarrow>
     (\<forall>q. EqualFold co p q \<longrightarrow> Find co h n q = Find co h n p)"
  "(\<forall>r. co r = co 46 \<longrightarrow> r = 46) \<longrightarrow>
     (\<forall>q d. aligned co p c q d \<longrightarrow> Find_loop co h n q d = Find_loop co h n p c)"
  "(\<forall>r. co r = co 46 \<longrightarrow> r = 46) \<longrightarrow>
     (\<forall>q d. aligned co p c q d \<longrightarrow> Find_range co h vs q d = Find_range co h vs p c)"
proof (induction co h n p and co h n p c and co h vs p c rule: Find_Find_loop_Find_range.induct)
  case (1 co h n dottedPath)
  show ?case
  proof (intro allI impI)
    fix q assume sep: "\<forall>r. co r = co 46 \<longrightarrow> r = 46" and q: "EqualFold co dottedPath q"
    from 1 sep aligned_self [OF q] show "Find co h n q = Find co h n dottedPath"
      by (simp add: Find.simps)
  qed
next
  case (2 co h n dottedPath cur)
  show ?case
  proof (intro allI impI)
    fix q d assume sep: "\<forall>r. co r = co 46 \<longrightarrow> r = 46" and al: "aligned co dottedPath cur q d"
    note sh = aligned_shorten [OF sep al]
    show "Find_loop co h n q d = Find_loop co h n dottedPath cur"
    proof (cases "length cur = 0")
      case True
      with aligned_empty [OF al] show ?thesis by (simp add: Find_loop.simps)
    next
      case ne: False
      with aligned_empty [OF al] have ned: "length d \<noteq> 0" by simp
      show ?thesis
      proof (cases "Children h n")
        case (Inl e)
        then show ?thesis using ne ned by (simp add: Find_loop.simps)
      next
        case (Inr b)
        obtain h1 r where b: "b = (h1, r)" by (cases b)
        have range: "Find_range co h1 (slices h1 ! r) q d = Find_range co h1 (slices h1 ! r) dottedPath cur"
          using 2(1) [OF ne Inr b [symmetric]] sep al by blast
        show ?thesis
        proof (cases "Find_range co h1 (slices h1 ! r) dottedPath cur")
          case (Inl e)
          then show ?thesis using ne ned Inr b range
            by (simp add: Find_loop.simps [of co h n])
        next
          case inner: (Inr b2)
          obtain h2 res where b2: "b2 = (h2, res)" by (cases b2)
          show ?thesis
          proof (cases res)
            case (Some node)
            then show ?thesis using ne ned Inr b range inner b2
              by (simp add: Find_loop.simps [of co h n])
          next
            case None
            show ?thesis
            proof (cases "0 < LastIndex cur separator")
              case False
              then show ?thesis using ne ned Inr b range inner b2 None sh(1)
                by (simp add: Find_loop.simps [of co h n])
            next
              case True
              have "Find_loop co h2 n q (take (nat (LastIndex d separator)) d)
                    = Find_loop co h2 n dottedPath (take (nat (LastIndex cur separator)) cur)"
                using 2(2) [OF ne Inr b [symmetric] inner b2 [symmetric] None refl True] sep sh(2) [OF True]
                by blast
              then show ?thesis using ne ned Inr b range inner b2 None sh(1) True
                by (simp add: Find_loop.simps [of co h n])
            qed
          qed
        qed
      qed
    qed
  qed
next
  case (3 co h dottedPath cur)
  show ?case by (simp add: Find_range.simps)
next
  case (4 co h v vs dottedPath cur)
  show ?case
  proof (intro allI impI)
    fix q d assume sep: "\<forall>r. co r = co 46 \<longrightarrow> r = 46" and al: "aligned co dottedPath cur q d"
    have ef: "EqualFold co (key (nodes h ! v)) d = EqualFold co (key (nodes h ! v)) cur"
      by (rule aligned_key [OF al])
    note whole = aligned_whole [OF al]
    show "Find_range co h (v # vs) q d = Find_range co h (v # vs) dottedPath cur"
    proof (cases "length (nodes h) \<le> v")
      case True
      then show ?thesis by (simp add: Find_range.simps)
    next
      case valid: False
      show ?thesis
      proof (cases "EqualFold co (key (nodes h ! v)) cur")
        case False
        with 4(3) [OF valid False] sep al valid ef show ?thesis
          by (simp add: Find_range.simps)
      next
        case match: True
        show ?thesis
        proof (cases "cur = dottedPath")
          case True
          then show ?thesis using valid match ef whole by (simp add: Find_range.simps)
        next
          case nw: False
          note ds = aligned_descend [OF sep al nw]
          let ?q' = "drop (length d + 1) q" and ?p' = "drop (length cur + 1) dottedPath"
          have rec: "Find co h v ?q' = Find co h v ?p'"
            using 4(1) [OF valid match nw ds(1)] sep ds(3) by blast
          show ?thesis
          proof (cases "Find co h v ?p'")
            case (Inl e)
            then show ?thesis using valid match ef whole nw ds(1,2) rec
              by (simp add: Find_range.simps)
          next
            case (Inr b)
            obtain h' res where b: "b = (h', res)" by (cases b)
            show ?thesis
            proof (cases res)
              case (Some node)
              then show ?thesis using valid match ef whole nw ds(1,2) rec Inr b
                by (simp add: Find_range.simps)
            next
              case None
              have "Find_range co h' vs q d = Find_range co h' vs dottedPath cur"
                using 4(2) [OF valid match nw ds(1) Inr b [symmetric] None] sep al by blast
              then show ?thesis using valid match ef whole nw ds(1,2) rec Inr b None
                by (simp add: Find_range.simps)
            qed
          qed
        qed
      qed
    qed
  qed
qed

text \<open>
  C7. In a well-formed store, for a node \<open>n\<close> and two paths that are equal under simple
  Unicode case folding (that differ only in the case of letters), \<^verbatim>\<open>Find\<close> returns
  the same node: run from the same store the two searches are equal in result and in
  store, and the search for the first path does not panic and the search for the second
  path, run after it, returns the same result. The case orbits are those of any table in
  which the dot has no case variant.
\<close>

theorem Find_case_insensitive:
  assumes "wf_store h" and "n < length (nodes h)"
    and "dot_uncased caseOrbit" and "EqualFold caseOrbit p q"
  shows "Find caseOrbit h n q = Find caseOrbit h n p
       \<and> (\<exists>h1 r h2. Find caseOrbit h n p = Inr (h1, r) \<and> Find caseOrbit h1 n q = Inr (h2, r))"
proof
  from assms(3) have sep: "\<forall>r. caseOrbit r = caseOrbit 46 \<longrightarrow> r = 46"
    by (simp add: dot_uncased_def)
  from Find_fold(1) [of caseOrbit p h n] sep assms(4)
  show same: "Find caseOrbit h n q = Find caseOrbit h n p" by blast
  from Find_stable(1) [of h n caseOrbit p] assms(1,2)
  have "returns_stably (\<lambda>h. Find caseOrbit h n p) h" by simp
  then obtain h1 r where run: "Find caseOrbit h n p = Inr (h1, r)"
    and again: "\<And>h2. store_le h1 h2 \<Longrightarrow> \<exists>h3. Find caseOrbit h2 n p = Inr (h3, r) \<and> store_le h2 h3"
    by (rule returns_stablyE) blast
  from again [OF store_le_refl] obtain h2 where "Find caseOrbit h1 n p = Inr (h2, r)" by blast
  moreover from Find_fold(1) [of caseOrbit p h1 n] sep assms(4)
  have "Find caseOrbit h1 n q = Find caseOrbit h1 n p" by blast
  ultimately show "\<exists>h1 r h2. Find caseOrbit h n p = Inr (h1, r) \<and> Find caseOrbit h1 n q = Inr (h2, r)"
    using run by auto
qed

theorem Find_case_insensitive_witness:
  "wf_store \<lparr>nodes = [\<lparr>nodeType = objectNode, key = [], val = GMap [(Key (SString ''K''), GMap [(Key (SString [CHR 0xC3, CHR 0xA9]), GScalar (SInt 1))])], children = None\<rparr>], slices = []\<rparr>
   \<and> 0 < length (nodes \<lparr>nodes = [\<lparr>nodeType = objectNode, key = [], val = GMap [(Key (SString ''K''), GMap [(Key (SString [CHR 0xC3, CHR 0xA9]), GScalar (SInt 1))])], children = None\<rparr>], slices = []\<rparr>)
   \<and> dot_uncased sample_orbit
   \<and> EqualFold sample_orbit [CHR 0xE2, CHR 0x84, CHR 0xAA, CHR ''.'', CHR 0xC3, CHR 0x89] [CHR ''k'', CHR ''.'', CHR 0xC3, CHR 0xA9]
   \<and> (\<exists>h1 h2. Find sample_orbit \<lparr>nodes = [\<lparr>nodeType = objectNode, key = [], val = GMap [(Key (SString ''K''), GMap [(Key (SString [CHR 0xC3, CHR 0xA9]), GScalar (SInt 1))])], children = None\<rparr>], slices = []\<rparr> 0 [CHR 0xE2, CHR 0x84, CHR 0xAA, CHR ''.'', CHR 0xC3, CHR 0x89] = Inr (h1, Some 2)
               \<and> Find sample_orbit h1 0 [CHR ''k'', CHR ''.'', CHR 0xC3, CHR 0xA9] = Inr (h2, Some 2))"
proof -
  have wf: "wf_store \<lparr>nodes = [\<lparr>nodeType = objectNode, key = [], val = GMap [(Key (SString ''K''), GMap [(Key (SString [CHR 0xC3, CHR 0xA9]), GScalar (SInt 1))])], children = None\<rparr>], slices = []\<rparr>"
    by (simp add: wf_store_def)
  have n: "0 < length (nodes \<lparr>nodes = [\<lparr>nodeType = objectNode, key = [], val = GMap [(Key (SString ''K''), GMap [(Key (SString [CHR 0xC3, CHR 0xA9]), GScalar (SInt 1))])], children = None\<rparr>], slices = []\<rparr>)"
    by simp
  have sep: "dot_uncased sample_orbit"
    by (auto simp: dot_uncased_def sample_orbit_def split: if_splits)
  have ef: "EqualFold sample_orbit [CHR 0xE2, CHR 0x84, CHR 0xAA, CHR ''.'', CHR 0xC3, CHR 0x89] [CHR ''k'', CHR ''.'', CHR 0xC3, CHR 0xA9]"
    by (simp add: EqualFold_def runes.simps first_byte_def sample_orbit_def)
  have run: "\<exists>h1. Find sample_orbit \<lparr>nodes = [\<lparr>nodeType = objectNode, key = [], val = GMap [(Key (SString ''K''), GMap [(Key (SString [CHR 0xC3, CHR 0xA9]), GScalar (SInt 1))])], children = None\<rparr>], slices = []\<rparr> 0 [CHR 0xE2, CHR 0x84, CHR 0xAA, CHR ''.'', CHR 0xC3, CHR 0x89] = Inr (h1, Some 2)"
    by (simp add: Find.simps Find_loop.simps Find_range.simps Children_def fill_children_def
          make_slice_def copy_children_def new_node_def append_children_def LastIndex_def
          separator_def EqualFold_def runes.simps first_byte_def sample_orbit_def Let_def)
  from Find_case_insensitive [OF wf n sep ef] run
  have "\<exists>h1 h2. Find sample_orbit \<lparr>nodes = [\<lparr>nodeType = objectNode, key = [], val = GMap [(Key (SString ''K''), GMap [(Key (SString [CHR 0xC3, CHR 0xA9]), GScalar (SInt 1))])], children = None\<rparr>], slices = []\<rparr> 0 [CHR 0xE2, CHR 0x84, CHR 0xAA, CHR ''.'', CHR 0xC3, CHR 0x89] = Inr (h1, Some 2)
               \<and> Find sample_orbit h1 0 [CHR ''k'', CHR ''.'', CHR 0xC3, CHR 0xA9] = Inr (h2, Some 2)"
    by auto
  with wf n sep ef show ?thesis by blast
qed





end
